theory Spec2Isabelle
  imports Complex_Main
begin

section \<open>Numbers and matrices\<close>

text \<open>
  The optimizer of DruidJS's \<open>TSNE\<close> class is embedded in exact arithmetic: a JavaScript
  number is a \<^typ>\<open>real\<close>, \<open>Math.exp\<close> is \<^const>\<open>exp\<close>, \<open>Math.log\<close> is \<^const>\<open>ln\<close> (on
  positive arguments) and \<open>Math.max\<close> is \<^const>\<open>max\<close>.  The two unbounded search limits
  \<open>-Infinity\<close> and \<open>Infinity\<close> are the value \<open>None\<close> of a \<^typ>\<open>real option\<close>.  The one
  division whose divisor can be zero, \<open>Q_i[j] / qsum\<close> in the unguarded gradient loop, is
  modelled by \<open>js_div\<close> below; its \<open>NaN\<close> is the one value of the run that is not a real.

  A \<open>Matrix\<close> stores its entries row by row in a \<open>Float64Array\<close>; entry \<open>(row, col)\<close> lives
  at offset \<open>row * cols + col\<close>, and \<open>row(i)\<close> is a view on the same storage.  The model keeps
  the rows as lists: a matrix is the list of its rows, and a write through a row view is a
  write to the matrix.  A write outside the array is ignored by JavaScript and by
  \<^const>\<open>list_update\<close> alike; every read of the loops below is in range when the matrices
  have the shapes the constructor and \<open>init()\<close> give them.

  The base class \<open>DR\<close> is not among the sources.  Of \<open>DR\<close> the model uses only that it
  stores \<open>X\<close> (a \<open>Matrix\<close>), the parameters and a seeded randomizer.
\<close>

type_synonym matrix = "real list list"

definition Matrix :: "nat \<Rightarrow> nat \<Rightarrow> (nat \<Rightarrow> nat \<Rightarrow> real) \<Rightarrow> matrix" where
  "Matrix rows cols f = map (\<lambda>row. map (\<lambda>col. f row col) [0..<cols]) [0..<rows]"

definition entry :: "matrix \<Rightarrow> nat \<Rightarrow> nat \<Rightarrow> real" where
  "entry M row col = M ! row ! col"

definition set_entry :: "matrix \<Rightarrow> nat \<Rightarrow> nat \<Rightarrow> real \<Rightarrow> matrix" where
  "set_entry M row col v = M[row := (M ! row)[col := v]]"

definition add_entry :: "matrix \<Rightarrow> nat \<Rightarrow> nat \<Rightarrow> real \<Rightarrow> matrix" where
  "add_entry M row col v = set_entry M row col (entry M row col + v)"

definition sub_entry :: "matrix \<Rightarrow> nat \<Rightarrow> nat \<Rightarrow> real \<Rightarrow> matrix" where
  "sub_entry M row col v = set_entry M row col (entry M row col - v)"

text \<open>A matrix of the model has the shape \<open>rows \<times> cols\<close>.\<close>

definition shaped :: "nat \<Rightarrow> nat \<Rightarrow> matrix \<Rightarrow> bool" where
  "shaped rows cols M \<longleftrightarrow> length M = rows \<and> list_all (\<lambda>r. length r = cols) M"

text \<open>The sum of all entries of the leading \<open>rows \<times> cols\<close> block.\<close>

definition sum_entries :: "nat \<Rightarrow> nat \<Rightarrow> matrix \<Rightarrow> real" where
  "sum_entries rows cols M = (\<Sum>i<rows. \<Sum>j<cols. entry M i j)"

text \<open>
  The constructor of \<open>Matrix\<close> allocates the storage only \<open>if (rows && cols)\<close>: a matrix
  with no row or no column keeps \<open>_data = null\<close>, and \<open>row(i)\<close> on it throws a \<open>TypeError\<close>,
  the exception of a read through \<open>null\<close> or \<open>undefined\<close>.  It is the only exception of the
  code below.
\<close>

datatype error = TypeError

text \<open>
  In the model a matrix has a row when the list is not empty, and a column when its first
  row is not empty.
\<close>

definition has_storage :: "matrix \<Rightarrow> bool" where
  "has_storage M \<longleftrightarrow> M \<noteq> [] \<and> hd M \<noteq> []"

subsection \<open>\<open>distance_matrix\<close> (src/matrix/distance_matrix.js)\<close>

text \<open>
  With a row to visit, line 16 reads \<open>A.row(0)\<close> first: a data matrix with rows but no
  column ends the call there.  \<open>D\<close> itself, \<open>n \<times> n\<close> with \<open>0 < n\<close>, has its storage.
\<close>

definition distance_matrix ::
  "matrix \<Rightarrow> (real list \<Rightarrow> real list \<Rightarrow> real) \<Rightarrow> error + matrix" where
  "distance_matrix A metric =
     (let n = length A in
      if 0 < n \<and> \<not> has_storage A then Inl TypeError
      else Inr (fold (\<lambda>i. fold (\<lambda>j D. let v = metric (A ! i) (A ! j)
                                   in set_entry (set_entry D i j v) j i v) [i + 1..<n])
                  [0..<n] (Matrix n n (\<lambda>_ _. 0))))"

section \<open>The \<open>TSNE\<close> object\<close>

text \<open>
  The parameter \<open>metric\<close> is either the string \<open>"precomputed"\<close> or a function on two rows.
  The randomizer enters the model as the sequence \<open>gauss\<close> of the values its
  \<open>gauss_random()\<close> returns, with \<open>rng\<close> the number of values drawn so far.  The fields that
  \<open>init()\<close> assigns are \<open>None\<close> (JavaScript's \<open>undefined\<close>) until then.
\<close>

datatype metric = Precomputed | Metric "real list \<Rightarrow> real list \<Rightarrow> real"

text \<open>
  The quotient \<open>a / b\<close> where \<open>b\<close> can be zero: \<open>None\<close> is \<open>NaN\<close>, the value of \<open>0 / 0\<close>.  The
  one use, \<open>Q_i[j] / qsum\<close>, divides by zero only when \<open>Q\<close> has no entry but its zero
  diagonal, so that the dividend is \<open>0\<close> as well.
\<close>

definition js_div :: "real \<Rightarrow> real \<Rightarrow> real option" where
  "js_div a b = (if b = 0 then None else Some (a / b))"

text \<open>
  The values of a matrix that a step may fill with \<open>NaN\<close>: either real numbers, or \<open>NaN\<close>
  in every cell.  Only the second version of src/dimred/TSNE.js, whose gradient loop
  divides without a guard, needs the second case; there \<open>NaN\<close> reaches every cell of the
  gradient, of \<open>_ystep\<close> and of \<open>Y\<close> in the same call (see \<open>next2_with\<close> below).
\<close>

datatype cells = Reals matrix | NaNs

text \<open>
  The object.  The type parameter is the type of the values of \<open>Y\<close> and \<open>_ystep\<close>: real
  matrices in the versions that keep the guard, \<^typ>\<open>cells\<close> in the version that drops it.
\<close>

record 'c tsne_of =
  this_X :: matrix
  perplexity :: real
  epsilon :: real
  par_d :: nat
  par_metric :: metric
  gauss :: "nat \<Rightarrow> real"
  rng :: nat
  this_N :: nat
  this_iter :: nat
  this_Y :: "'c option"
  this_ystep :: "'c option"
  this_gains :: "matrix option"
  this_grad :: "matrix option"
  this_P :: "matrix option"

type_synonym tsne = "matrix tsne_of"

type_synonym tsne2 = "cells tsne_of"

text \<open>
  The constructor of src/dimred/TSNE.js (both versions in that file); line 27 and line 235
  read \<open>_N\<close> off the shape of \<open>X\<close>.
\<close>

definition TSNE :: "matrix \<Rightarrow> real \<Rightarrow> real \<Rightarrow> nat \<Rightarrow> metric \<Rightarrow> (nat \<Rightarrow> real) \<Rightarrow> 'c tsne_of" where
  "TSNE X perp eps dm m g =
     \<lparr>this_X = X, perplexity = perp, epsilon = eps, par_d = dm, par_metric = m,
      gauss = g, rng = 0, this_N = length X, this_iter = 0,
      this_Y = None, this_ystep = None, this_gains = None, this_grad = None, this_P = None\<rparr>"

section \<open>\<open>init()\<close>, first version of src/dimred/TSNE.js\<close>

subsection \<open>The precision search of one row\<close>

text \<open>Lines 65--72: one pass over row \<open>i\<close> with precision \<open>b\<close>; returns \<open>(prow, psum, dp_sum)\<close>.\<close>

definition kernel_pass :: "nat \<Rightarrow> nat \<Rightarrow> real list \<Rightarrow> real \<Rightarrow> real list \<Rightarrow> real list \<times> real \<times> real" where
  "kernel_pass N i dist_i b prow0 =
     fold (\<lambda>j (prow, psum, dp_sum).
             let dist = dist_i ! j;
                 pj = (if i \<noteq> j then exp (- dist * b) else 1 / 10 ^ 9)
             in (prow[j := pj], psum + pj, dp_sum + b * dist * pj))
       [0..<N] (prow0, 0, 0)"

record search =
  betamin :: "real option"
  betamax :: "real option"
  beta :: real
  is_done :: bool
  prow_of :: "real list"
  psum_of :: real

definition tol :: real where
  "tol = 1 / 10 ^ 4"

definition maxtries :: nat where
  "maxtries = 50"

text \<open>Line 74: the entropy of a pass.\<close>

definition entropy :: "real \<Rightarrow> real \<Rightarrow> real" where
  "entropy psum dp_sum = ln psum + dp_sum / psum"

text \<open>Lines 64--82, the body of the \<open>while\<close> loop.\<close>

definition search_pass :: "nat \<Rightarrow> real \<Rightarrow> nat \<Rightarrow> real list \<Rightarrow> search \<Rightarrow> search" where
  "search_pass N Htarget i dist_i s =
     (case kernel_pass N i dist_i (beta s) (prow_of s) of (prow, psum, dp_sum) \<Rightarrow>
        let H = entropy psum dp_sum;
            s1 = (if H > Htarget
                  then s\<lparr>betamin := Some (beta s),
                         beta := (case betamax s of None \<Rightarrow> 2 * beta s
                                    | Some bmax \<Rightarrow> 0.5 * (beta s + bmax))\<rparr>
                  else s\<lparr>betamax := Some (beta s),
                         beta := (case betamin s of None \<Rightarrow> 0.5 * beta s
                                    | Some bmin \<Rightarrow> 0.5 * (beta s + bmin))\<rparr>)
        in s1\<lparr>is_done := \<bar>H - Htarget\<bar> < tol, prow_of := prow, psum_of := psum\<rparr>)"

text \<open>
  Line 63, \<open>while (!done && cnt--)\<close>, for a loop body \<open>pass\<close>: the second argument is the
  value of \<open>cnt\<close>, the tries left.  The result carries the final count, so that \<open>maxtries\<close>
  minus it is the number of passes made (JavaScript leaves \<open>cnt\<close> at \<open>-1\<close> when the budget
  is used up, the model at \<open>0\<close>).
\<close>

fun search_loop :: "(search \<Rightarrow> search) \<Rightarrow> nat \<Rightarrow> search \<Rightarrow> nat \<times> search" where
  "search_loop pass 0 s = (0, s)"
| "search_loop pass (Suc cnt) s =
     (if is_done s then (Suc cnt, s) else search_loop pass cnt (pass s))"

text \<open>Lines 56--61: the variables of the search before the loop (\<open>psum\<close> is not yet assigned).\<close>

definition search_start :: "real list \<Rightarrow> search" where
  "search_start prow = \<lparr>betamin = None, betamax = None, beta = 1, is_done = False,
                        prow_of = prow, psum_of = 0\<rparr>"

definition search_row :: "nat \<Rightarrow> real \<Rightarrow> nat \<Rightarrow> real list \<Rightarrow> real list \<Rightarrow> nat \<times> search" where
  "search_row N Htarget i dist_i prow =
     search_loop (search_pass N Htarget i dist_i) maxtries (search_start prow)"

subsection \<open>Rows, normalization and symmetrization\<close>

text \<open>Lines 53--89, one round of the loop over the rows: search, then \<open>prow[j] *= N2\<close>.\<close>

definition affinity_row :: "nat \<Rightarrow> real \<Rightarrow> matrix \<Rightarrow> nat \<Rightarrow> matrix \<Rightarrow> matrix" where
  "affinity_row N Htarget Delta i P =
     (let s = snd (search_row N Htarget i (Delta ! i) (P ! i));
          N2 = 1 / (2 * real N * psum_of s)
      in P[i := fold (\<lambda>j prow. prow[j := prow ! j * N2]) [0..<N] (prow_of s)])"

definition affinities :: "nat \<Rightarrow> real \<Rightarrow> matrix \<Rightarrow> matrix" where
  "affinities N Htarget Delta =
     fold (affinity_row N Htarget Delta) [0..<N] (Matrix N N (\<lambda>_ _. 0))"

text \<open>Lines 92--97: \<open>P.set_entry(j, i, P_i[j] += P.entry(j, i))\<close> for \<open>j\<close> from \<open>i\<close>.\<close>

definition symmetrize :: "nat \<Rightarrow> matrix \<Rightarrow> matrix" where
  "symmetrize N P0 =
     fold (\<lambda>i. fold (\<lambda>j P. let v = P ! i ! j + entry P j i
                            in set_entry (set_entry P i j v) j i v) [i..<N])
       [0..<N] P0"

text \<open>Line 43.\<close>

definition Delta_of :: "'c tsne_of \<Rightarrow> error + matrix" where
  "Delta_of t = (case par_metric t of Precomputed \<Rightarrow> Inr (this_X t)
                   | Metric f \<Rightarrow> distance_matrix (this_X t) f)"

text \<open>Lines 46--48: the fresh \<open>Y\<close>, \<open>_ystep\<close> and \<open>_gains\<close>; \<open>Y\<close> draws \<open>N * d\<close> values.\<close>

definition fresh_Y :: "'c tsne_of \<Rightarrow> matrix" where
  "fresh_Y t = Matrix (this_N t) (par_d t)
                 (\<lambda>row col. gauss t (rng t + row * par_d t + col) * (1 / 10 ^ 4))"

text \<open>Lines 44--99, for the \<open>Delta\<close> that line 43 has computed.\<close>

definition init_from :: "matrix \<Rightarrow> tsne \<Rightarrow> tsne" where
  "init_from Delta t =
     (let dm = par_d t; N = this_N t;
          Htarget = ln (perplexity t);
          P = symmetrize N (affinities N Htarget Delta)
      in t\<lparr>this_Y := Some (fresh_Y t),
            rng := rng t + N * dm,
            this_ystep := Some (Matrix N dm (\<lambda>_ _. 0)),
            this_gains := Some (Matrix N dm (\<lambda>_ _. 1)),
            this_P := Some P\<rparr>)"

text \<open>
  \<open>init()\<close>.  It throws where \<open>distance_matrix\<close> does, and at line 54, \<open>Delta.row(0)\<close>, when
  there is a row to visit and \<open>Delta\<close>, then the \<open>X\<close> that was passed as distances, has no
  column.  \<open>P\<close>, \<open>N \<times> N\<close>, has its storage whenever a row is visited, and no line reads a row
  of \<open>Y\<close>, \<open>_ystep\<close> or \<open>_gains\<close>.
\<close>

definition init :: "tsne \<Rightarrow> error + tsne" where
  "init t =
     (case Delta_of t of
        Inl e \<Rightarrow> Inl e
      | Inr Delta \<Rightarrow>
          if 0 < this_N t \<and> \<not> has_storage Delta then Inl TypeError
          else Inr (init_from Delta t))"

section \<open>\<open>next()\<close>, first version of src/dimred/TSNE.js\<close>

text \<open>Lines 144--145, on the counter after \<open>++this._iter\<close>.\<close>

definition pmul_of :: "nat \<Rightarrow> real" where
  "pmul_of iter = (if iter < 100 then 4 else 1)"

definition momval_of :: "nat \<Rightarrow> real" where
  "momval_of iter = (if iter < 250 then 0.5 else 0.8)"

text \<open>Lines 154--157: the squared distance of the rows \<open>i\<close> and \<open>j\<close> of \<open>Y\<close>.\<close>

definition dsum_of :: "nat \<Rightarrow> matrix \<Rightarrow> nat \<Rightarrow> nat \<Rightarrow> real" where
  "dsum_of dm Y i j =
     fold (\<lambda>d dsum. let dhere = Y ! i ! d - entry Y j d in dsum + dhere * dhere) [0..<dm] 0"

text \<open>Lines 148--162: the unnormalized Student-t matrix \<open>Q\<close> and \<open>qsum\<close>.\<close>

definition compute_Q :: "nat \<Rightarrow> nat \<Rightarrow> matrix \<Rightarrow> matrix \<times> real" where
  "compute_Q N dm Y =
     fold (\<lambda>i. fold (\<lambda>j (Q, qsum).
                       let qu = 1 / (1 + dsum_of dm Y i j)
                       in (set_entry (set_entry Q i j qu) j i qu, qsum + 2 * qu))
                  [i + 1..<N])
       [0..<N] (Matrix N N (\<lambda>_ _. 0), 0)"

text \<open>Lines 166--180: the gradient loop with the guard \<open>i !== j\<close>, adding into \<open>grad0\<close>.\<close>

definition gradient_loop ::
  "nat \<Rightarrow> nat \<Rightarrow> real \<Rightarrow> matrix \<Rightarrow> matrix \<Rightarrow> real \<Rightarrow> matrix \<Rightarrow> matrix \<Rightarrow> matrix" where
  "gradient_loop N dm pmul P Q qsum Y grad0 =
     fold (\<lambda>i. fold (\<lambda>j grad.
                       if i \<noteq> j
                       then let qu = Q ! i ! j;
                                premult = 4 * (pmul * (P ! i ! j) - qu / qsum) * qu
                            in fold (\<lambda>d g. add_entry g i d (premult * (Y ! i ! d - entry Y j d)))
                                 [0..<dm] grad
                       else grad)
                  [0..<N])
       [0..<N] grad0"

text \<open>Lines 147--180: \<open>Q\<close>, then the gradient in a new zero matrix.\<close>

definition gradient :: "nat \<Rightarrow> nat \<Rightarrow> real \<Rightarrow> matrix \<Rightarrow> matrix \<Rightarrow> matrix" where
  "gradient N dm pmul P Y =
     (case compute_Q N dm Y of (Q, qsum) \<Rightarrow>
        gradient_loop N dm pmul P Q qsum Y (Matrix N dm (\<lambda>_ _. 0)))"

text \<open>Line 190.\<close>

definition newgain_of :: "real \<Rightarrow> real \<Rightarrow> real \<Rightarrow> real" where
  "newgain_of gid sid gain = max (if gid * sid < 0 then gain + 0.2 else gain * 0.8) 0.01"

text \<open>
  Lines 183--198: the gradient step.  The source walks the flat arrays with one running
  index; the model addresses the same cell by its row and column.  The state is
  \<open>(gains, ystep, Y, ymean)\<close>.  The rule for the new gain is the argument \<open>rule\<close>: the
  versions of the class differ in that line only.
\<close>

definition descend_cell ::
  "(real \<Rightarrow> real \<Rightarrow> real \<Rightarrow> real) \<Rightarrow> real \<Rightarrow> real \<Rightarrow> matrix \<Rightarrow> nat \<Rightarrow> nat
     \<Rightarrow> matrix \<times> matrix \<times> matrix \<times> real list \<Rightarrow> matrix \<times> matrix \<times> matrix \<times> real list" where
  "descend_cell rule momval eps grad i d st =
     (case st of (gains, ystep, Y, ymean) \<Rightarrow>
        let gid = entry grad i d;
            sid = entry ystep i d;
            newgain = rule gid sid (entry gains i d);
            newsid = momval * sid - eps * newgain * gid;
            Y' = add_entry Y i d newsid
        in (set_entry gains i d newgain, set_entry ystep i d newsid, Y',
            ymean[d := ymean ! d + entry Y' i d]))"

definition descend ::
  "(real \<Rightarrow> real \<Rightarrow> real \<Rightarrow> real) \<Rightarrow> nat \<Rightarrow> nat \<Rightarrow> real \<Rightarrow> real \<Rightarrow> matrix
     \<Rightarrow> matrix \<Rightarrow> matrix \<Rightarrow> matrix \<Rightarrow> matrix \<times> matrix \<times> matrix \<times> real list" where
  "descend rule N dm momval eps grad gains ystep Y =
     fold (\<lambda>i. fold (descend_cell rule momval eps grad i) [0..<dm])
       [0..<N] (gains, ystep, Y, replicate dm 0)"

text \<open>Lines 200--204: \<open>ymean[d] /= N\<close>, then every coordinate loses the mean of its column.\<close>

definition center :: "nat \<Rightarrow> nat \<Rightarrow> real list \<Rightarrow> matrix \<Rightarrow> matrix" where
  "center N dm ymean0 Y0 =
     (let ymean = fold (\<lambda>d ym. ym[d := ym ! d / real N]) [0..<dm] ymean0
      in fold (\<lambda>i. fold (\<lambda>d Y. sub_entry Y i d (ymean ! d)) [0..<dm]) [0..<N] Y0)"

text \<open>
  \<open>next()\<close>.  Reading \<open>.values\<close> of a field that \<open>init()\<close> has not assigned throws a
  \<open>TypeError\<close>, and so does \<open>Y.row(0)\<close> when \<open>d\<close> is \<open>0\<close>: a \<open>Matrix\<close> with no column has no
  storage.  \<open>next_with\<close> is the method after line 145, for the values of \<open>iter\<close>, \<open>pmul\<close> and
  \<open>momval\<close> that the lines 138--145 fix.
\<close>

definition next_with :: "nat \<Rightarrow> real \<Rightarrow> real \<Rightarrow> tsne \<Rightarrow> error + tsne" where
  "next_with iter pmul momval t =
     (case (this_Y t, this_ystep t, this_gains t, this_P t) of
        (Some Y, Some ystep, Some gains, Some P) \<Rightarrow>
          let dm = par_d t; N = this_N t
          in if 0 < N \<and> dm = 0 then Inl TypeError
             else
               let grad = gradient N dm pmul P Y
               in (case descend newgain_of N dm momval (epsilon t) grad gains ystep Y of
                     (gains', ystep', Y', ymean) \<Rightarrow>
                       Inr (t\<lparr>this_iter := iter,
                              this_gains := Some gains',
                              this_ystep := Some ystep',
                              this_Y := Some (center N dm ymean Y')\<rparr>))
      | _ \<Rightarrow> Inl TypeError)"

definition "next" :: "tsne \<Rightarrow> error + tsne" where
  "next t = (let iter = this_iter t + 1 in next_with iter (pmul_of iter) (momval_of iter) t)"

text \<open>\<open>iterations\<close> calls of \<open>next()\<close> in a row, as the loop of \<open>transform\<close> makes them.\<close>

fun steps :: "('s \<Rightarrow> error + 's) \<Rightarrow> nat \<Rightarrow> 's \<Rightarrow> error + 's" where
  "steps nxt 0 t = Inr t"
| "steps nxt (Suc k) t = (case nxt t of Inl e \<Rightarrow> Inl e | Inr t' \<Rightarrow> steps nxt k t')"

section \<open>Second version of src/dimred/TSNE.js\<close>

subsection \<open>\<open>init()\<close>\<close>

text \<open>
  Lines 271--292: the kernel pass is that of the first version; the entropy is guarded by
  \<open>psum > 0\<close> and the new \<open>beta\<close> is written with divisions.
\<close>

definition search_pass2 :: "nat \<Rightarrow> real \<Rightarrow> nat \<Rightarrow> real list \<Rightarrow> search \<Rightarrow> search" where
  "search_pass2 N Htarget i dist_i s =
     (case kernel_pass N i dist_i (beta s) (prow_of s) of (prow, psum, dp_sum) \<Rightarrow>
        let H = (if psum > 0 then ln psum + dp_sum / psum else 0);
            s1 = (if H > Htarget
                  then s\<lparr>betamin := Some (beta s),
                         beta := (case betamax s of None \<Rightarrow> beta s * 2
                                    | Some bmax \<Rightarrow> (beta s + bmax) / 2)\<rparr>
                  else s\<lparr>betamax := Some (beta s),
                         beta := (case betamin s of None \<Rightarrow> beta s / 2
                                    | Some bmin \<Rightarrow> (beta s + bmin) / 2)\<rparr>)
        in s1\<lparr>is_done := \<bar>H - Htarget\<bar> < tol, prow_of := prow, psum_of := psum\<rparr>)"

text \<open>Lines 261--297: search, then \<open>prow[j] /= psum\<close>.\<close>

definition affinity_row2 :: "nat \<Rightarrow> real \<Rightarrow> matrix \<Rightarrow> nat \<Rightarrow> matrix \<Rightarrow> matrix" where
  "affinity_row2 N Htarget Delta i P =
     (let s = snd (search_loop (search_pass2 N Htarget i (Delta ! i)) maxtries
                     (search_start (P ! i)))
      in P[i := fold (\<lambda>j prow. prow[j := prow ! j / psum_of s]) [0..<N] (prow_of s)])"

definition affinities2 :: "nat \<Rightarrow> real \<Rightarrow> matrix \<Rightarrow> matrix" where
  "affinities2 N Htarget Delta =
     fold (affinity_row2 N Htarget Delta) [0..<N] (Matrix N N (\<lambda>_ _. 0))"

text \<open>Lines 300--307: \<open>p = (P_i[j] + P.entry(j, i)) * N2\<close> for \<open>j\<close> from \<open>i + 1\<close>.\<close>

definition symmetrize2 :: "nat \<Rightarrow> matrix \<Rightarrow> matrix" where
  "symmetrize2 N P0 =
     (let N2 = 1 / (real N * 2)
      in fold (\<lambda>i. fold (\<lambda>j P. let p = (P ! i ! j + entry P j i) * N2
                                in set_entry (set_entry P i j p) j i p) [i + 1..<N])
           [0..<N] P0)"

text \<open>Lines 252--309, for the \<open>Delta\<close> that line 251 has computed.\<close>

definition init2_from :: "matrix \<Rightarrow> tsne2 \<Rightarrow> tsne2" where
  "init2_from Delta t =
     (let dm = par_d t; N = this_N t;
          Htarget = ln (perplexity t);
          P = symmetrize2 N (affinities2 N Htarget Delta)
      in t\<lparr>this_Y := Some (Reals (fresh_Y t)),
            rng := rng t + N * dm,
            this_ystep := Some (Reals (Matrix N dm (\<lambda>_ _. 0))),
            this_gains := Some (Matrix N dm (\<lambda>_ _. 1)),
            this_P := Some P\<rparr>)"

text \<open>\<open>init()\<close>, with the exceptions of line 251 and of line 262, \<open>Delta.row(0)\<close>.\<close>

definition init2 :: "tsne2 \<Rightarrow> error + tsne2" where
  "init2 t =
     (case Delta_of t of
        Inl e \<Rightarrow> Inl e
      | Inr Delta \<Rightarrow>
          if 0 < this_N t \<and> \<not> has_storage Delta then Inl TypeError
          else Inr (init2_from Delta t))"

subsection \<open>\<open>next()\<close>\<close>

text \<open>
  Lines 375--387: the gradient loop without the guard, on a real \<open>Y\<close>.  \<open>Q_i[j] / qsum\<close> is
  \<open>js_div\<close>; a \<open>premult\<close> that is \<open>NaN\<close> makes the cells it is added to \<open>NaN\<close>.  \<open>qsum\<close> is the
  same in every round, so that either no \<open>premult\<close> is \<open>NaN\<close> or all are, and then every cell
  of the gradient is: the result is \<open>NaNs\<close>.
\<close>

definition gradient_loop2 ::
  "nat \<Rightarrow> nat \<Rightarrow> real \<Rightarrow> matrix \<Rightarrow> matrix \<Rightarrow> real \<Rightarrow> matrix \<Rightarrow> cells" where
  "gradient_loop2 N dm pmul P Q qsum Y =
     fold (\<lambda>i. fold (\<lambda>j grad.
                       let premult = map_option (\<lambda>q. 4 * (pmul * (P ! i ! j) - q) * (Q ! i ! j))
                                       (js_div (Q ! i ! j) qsum)
                       in fold (\<lambda>d g. case (g, premult) of
                                         (Reals g', Some pm) \<Rightarrow>
                                           Reals (add_entry g' i d (pm * (Y ! i ! d - entry Y j d)))
                                       | _ \<Rightarrow> NaNs)
                            [0..<dm] grad)
                  [0..<N])
       [0..<N] (Reals (Matrix N dm (\<lambda>_ _. 0)))"

definition gradient2 :: "nat \<Rightarrow> nat \<Rightarrow> real \<Rightarrow> matrix \<Rightarrow> matrix \<Rightarrow> cells" where
  "gradient2 N dm pmul P Y =
     (case compute_Q N dm Y of (Q, qsum) \<Rightarrow> gradient_loop2 N dm pmul P Q qsum Y)"

text \<open>Lines 408--412: \<open>Y.sub_entry(i, d, ymean[d] / N)\<close>.\<close>

definition center2 :: "nat \<Rightarrow> nat \<Rightarrow> real list \<Rightarrow> matrix \<Rightarrow> matrix" where
  "center2 N dm ymean Y0 =
     fold (\<lambda>i. fold (\<lambda>d Y. sub_entry Y i d (ymean ! d / real N)) [0..<dm]) [0..<N] Y0"

text \<open>
  Lines 391--406 when the gradient or the velocity of the cell is \<open>NaN\<close>: the comparison
  \<open>gid * sid < 0.0\<close> is false, so that the gain, a real number, is multiplied by \<open>0.8\<close> and
  clamped; \<open>newsid\<close>, a sum with a \<open>NaN\<close> term, is \<open>NaN\<close>, and so are the cell of \<open>Y\<close> it is
  added to and \<open>ymean[d]\<close>.
\<close>

definition decay_gains :: "nat \<Rightarrow> nat \<Rightarrow> matrix \<Rightarrow> matrix" where
  "decay_gains N dm gains0 =
     fold (\<lambda>i. fold (\<lambda>d gains. set_entry gains i d (max (entry gains i d * 0.8) 0.01)) [0..<dm])
       [0..<N] gains0"

text \<open>
  Lines 344--415, for the values of \<open>iter\<close>, \<open>pmul\<close> and \<open>momval\<close> that the lines 345--355
  fix.  With no row no line of a loop body runs, and the call returns even before
  \<open>init()\<close>.  With a row, \<open>Y.row(0)\<close> throws when \<open>Y\<close> is undefined or has no column, and
  \<open>P.row(0)\<close>, \<open>ystep.entry\<close> and \<open>gains.entry\<close> throw on an undefined field.

  On real \<open>Y\<close> and \<open>_ystep\<close> the lines 357--373 are \<open>compute_Q\<close>, and the gradient step of the
  lines 389--406 reads and writes the same cells as \<open>descend\<close>, through \<open>entry\<close>,
  \<open>set_entry\<close> and \<open>add_entry\<close>.  When the gradient is \<open>NaN\<close>, or \<open>_ystep\<close> is, every new
  velocity is \<open>NaN\<close>, and with it every cell of \<open>Y\<close>, before and after the centering.  When
  \<open>Y\<close> is \<open>NaN\<close>, every \<open>dhere\<close>, every \<open>qu\<close> and so every \<open>premult\<close> is (for \<open>j = i\<close> the
  quotient \<open>Q_i[i] / qsum\<close> is \<open>0 / NaN\<close> or \<open>0 / 0\<close>), and the gradient is \<open>NaN\<close> again.  In
  all these cases the call returns, with the counter incremented and \<open>P\<close> as it was.
\<close>

definition next2_with :: "nat \<Rightarrow> real \<Rightarrow> real \<Rightarrow> tsne2 \<Rightarrow> error + tsne2" where
  "next2_with iter pmul momval t =
     (let dm = par_d t; N = this_N t
      in if N = 0 then Inr (t\<lparr>this_iter := iter\<rparr>)
         else
           (case (this_Y t, this_ystep t, this_gains t, this_P t) of
              (Some cells_Y, Some cells_ystep, Some gains, Some P) \<Rightarrow>
                if dm = 0 then Inl TypeError
                else
                  (case (cells_Y, cells_ystep,
                         case cells_Y of Reals Y \<Rightarrow> gradient2 N dm pmul P Y | NaNs \<Rightarrow> NaNs) of
                     (Reals Y, Reals ystep, Reals grad) \<Rightarrow>
                       (case descend newgain_of N dm momval (epsilon t) grad gains ystep Y of
                          (gains', ystep', Y', ymean) \<Rightarrow>
                            Inr (t\<lparr>this_iter := iter,
                                   this_gains := Some gains',
                                   this_ystep := Some (Reals ystep'),
                                   this_Y := Some (Reals (center2 N dm ymean Y'))\<rparr>))
                   | _ \<Rightarrow>
                       Inr (t\<lparr>this_iter := iter,
                              this_gains := Some (decay_gains N dm gains),
                              this_ystep := Some NaNs,
                              this_Y := Some NaNs\<rparr>))
            | _ \<Rightarrow> Inl TypeError))"

definition next2 :: "tsne2 \<Rightarrow> error + tsne2" where
  "next2 t = (let iter = this_iter t + 1 in next2_with iter (pmul_of iter) (momval_of iter) t)"

section \<open>The version of src/src/dimred/TSNE.js\<close>

text \<open>
  Modelled from the spec: \<open>euclidean_squared\<close>, of the module \<open>metrics\<close>, is not among the
  sources; it is the squared Euclidean distance of two rows.
\<close>

definition euclidean_squared :: "real list \<Rightarrow> real list \<Rightarrow> real" where
  "euclidean_squared a b = (\<Sum>k<length a. (a ! k - b ! k)\<^sup>2)"

text \<open>
  Lines 25--38: the constructor allocates \<open>Y\<close>, \<open>_ystep\<close>, \<open>_gains\<close> and \<open>_grad\<close>.  It reads
  \<open>this._N\<close>, which the base class sets; as in line 27 of src/dimred/TSNE.js it is the number
  of rows of \<open>X\<close>.
\<close>

definition TSNE3 :: "matrix \<Rightarrow> real \<Rightarrow> real \<Rightarrow> nat \<Rightarrow> metric \<Rightarrow> (nat \<Rightarrow> real) \<Rightarrow> tsne" where
  "TSNE3 X perp eps dm m g =
     (let t = TSNE X perp eps dm m g; N = length X
      in t\<lparr>this_Y := Some (fresh_Y t),
            rng := N * dm,
            this_ystep := Some (Matrix N dm (\<lambda>_ _. 0)),
            this_gains := Some (Matrix N dm (\<lambda>_ _. 1)),
            this_grad := Some (Matrix N dm (\<lambda>_ _. 0))\<rparr>)"

subsection \<open>\<open>init()\<close>\<close>

text \<open>Lines 65--73; returns \<open>(P_i, sum_Pi, sum_dp)\<close>.\<close>

definition kernel_pass3 :: "nat \<Rightarrow> nat \<Rightarrow> real list \<Rightarrow> real \<Rightarrow> real list \<Rightarrow> real list \<times> real \<times> real" where
  "kernel_pass3 N i D_i b P_i0 =
     fold (\<lambda>j (P_i, sum_Pi, sum_dp).
             let dist = D_i ! j;
                 pij = (if i \<noteq> j then exp (- dist * b) else 1 / 10 ^ 9)
             in (P_i[j := pij], sum_Pi + pij, sum_dp + dist * pij))
       [0..<N] (P_i0, 0, 0)"

text \<open>Lines 65--83, the body of \<open>while (cnt--)\<close>; \<open>is_done\<close> records that \<open>break\<close> was taken.\<close>

definition search_pass3 :: "nat \<Rightarrow> real \<Rightarrow> nat \<Rightarrow> real list \<Rightarrow> search \<Rightarrow> search" where
  "search_pass3 N Htarget i D_i s =
     (case kernel_pass3 N i D_i (beta s) (prow_of s) of (P_i, sum_Pi, sum_dp) \<Rightarrow>
        let H = ln sum_Pi + beta s * (sum_dp / sum_Pi);
            s0 = s\<lparr>prow_of := P_i, psum_of := sum_Pi\<rparr>
        in if \<bar>H - Htarget\<bar> < tol then s0\<lparr>is_done := True\<rparr>
           else if H > Htarget
           then s0\<lparr>betamin := Some (beta s),
                   beta := (case betamax s of None \<Rightarrow> 2 * beta s
                              | Some bmax \<Rightarrow> 0.5 * (beta s + bmax))\<rparr>
           else s0\<lparr>betamax := Some (beta s),
                   beta := (case betamin s of None \<Rightarrow> 0.5 * beta s
                              | Some bmin \<Rightarrow> 0.5 * (beta s + bmin))\<rparr>)"

fun search_loop3 :: "(search \<Rightarrow> search) \<Rightarrow> nat \<Rightarrow> search \<Rightarrow> nat \<times> search" where
  "search_loop3 pass 0 s = (0, s)"
| "search_loop3 pass (Suc cnt) s =
     (let s' = pass s in if is_done s' then (cnt, s') else search_loop3 pass cnt s')"

text \<open>Lines 55--91.\<close>

definition affinity_row3 :: "nat \<Rightarrow> real \<Rightarrow> matrix \<Rightarrow> nat \<Rightarrow> matrix \<Rightarrow> matrix" where
  "affinity_row3 N Htarget Delta i P =
     (let s = snd (search_loop3 (search_pass3 N Htarget i (Delta ! i)) maxtries
                     (search_start (P ! i)));
          N2 = 1 / (2 * real N * psum_of s)
      in P[i := fold (\<lambda>j P_i. P_i[j := P_i ! j * N2]) [0..<N] (prow_of s)])"

text \<open>
  Lines 216--226, \<open>_symmetrizeP\<close>.  The source walks the flat array: in round \<open>k\<close> of the
  inner loop \<open>++i_j\<close> is the offset \<open>i * N + (i + k)\<close> of the cell \<open>(i, i + k)\<close> and \<open>j_i\<close> the
  offset \<open>(i + k) * N + i\<close> of the cell \<open>(i + k, i)\<close>, and \<open>j_i < N * N\<close> holds while
  \<open>i + k < N\<close>.
\<close>

definition symmetrizeP3 :: "nat \<Rightarrow> matrix \<Rightarrow> matrix" where
  "symmetrizeP3 N P0 =
     fold (\<lambda>i. fold (\<lambda>j P. let v = entry P i j + entry P j i
                            in set_entry (set_entry P i j v) j i v) [i + 1..<N])
       [0..<N] P0"

text \<open>Lines 45--95, for the \<open>Delta\<close> that line 49 has computed.\<close>

definition init3_from :: "matrix \<Rightarrow> tsne \<Rightarrow> tsne" where
  "init3_from Delta t =
     (let N = this_N t;
          Htarget = ln (perplexity t);
          P = fold (affinity_row3 N Htarget Delta) [0..<N] (Matrix N N (\<lambda>_ _. 0))
      in t\<lparr>this_P := Some (symmetrizeP3 N P)\<rparr>)"

text \<open>\<open>init()\<close>, with the exceptions of line 49 and of line 56, \<open>Delta.row(0)\<close>.\<close>

definition init3 :: "tsne \<Rightarrow> error + tsne" where
  "init3 t =
     (case Delta_of t of
        Inl e \<Rightarrow> Inl e
      | Inr Delta \<Rightarrow>
          if 0 < this_N t \<and> \<not> has_storage Delta then Inl TypeError
          else Inr (init3_from Delta t))"

subsection \<open>\<open>next()\<close> and \<open>_gradient\<close>\<close>

text \<open>Lines 182--193.\<close>

definition compute_Q3 :: "nat \<Rightarrow> matrix \<Rightarrow> matrix \<times> real" where
  "compute_Q3 N Y =
     fold (\<lambda>i. fold (\<lambda>j (Q, qsum).
                       let dist = euclidean_squared (Y ! i) (Y ! j);
                           qu = 1 / (1 + dist)
                       in (set_entry (set_entry Q i j qu) j i qu, qsum + 2 * qu))
                  [i + 1..<N])
       [0..<N] (Matrix N N (\<lambda>_ _. 0), 0)"

text \<open>
  Lines 173--213, for the value of \<open>pmul\<close> that line 174 fixes: the loop adds into
  \<open>this._grad\<close>, which the constructor allocated and which no line sets back to zero.
\<close>

definition gradient3_with :: "real \<Rightarrow> nat \<Rightarrow> nat \<Rightarrow> matrix \<Rightarrow> matrix \<Rightarrow> matrix \<Rightarrow> matrix" where
  "gradient3_with pmul N dm P grad Y =
     (case compute_Q3 N Y of (Q, qsum) \<Rightarrow> gradient_loop N dm pmul P Q qsum Y grad)"

text \<open>Line 131 and line 152.\<close>

definition sgn3 :: "real \<Rightarrow> int" where
  "sgn3 x = (if x > 0 then 1 else if x < 0 then - 1 else 0)"

definition newgain3_of :: "real \<Rightarrow> real \<Rightarrow> real \<Rightarrow> real" where
  "newgain3_of gid sid gainid =
     max (if sgn3 gid = sgn3 sid then gainid * 0.8 else gainid + 0.2) 0.01"

text \<open>
  Lines 130--167, for the values of \<open>this._iter\<close>, \<open>momval\<close> and \<open>pmul\<close> that the lines 138
  and 174 fix.  With a row to visit, \<open>Y.row(0)\<close> throws when \<open>d\<close> is \<open>0\<close>, and \<open>P.row(0)\<close> throws
  before \<open>init()\<close>.
\<close>

definition next3_with :: "nat \<Rightarrow> real \<Rightarrow> real \<Rightarrow> tsne \<Rightarrow> error + tsne" where
  "next3_with iter pmul momval t =
     (case (this_Y t, this_ystep t, this_gains t, this_grad t) of
        (Some Y, Some ystep, Some gains, Some grad0) \<Rightarrow>
          let dm = par_d t; N = this_N t
          in if 0 < N \<and> (dm = 0 \<or> this_P t = None) then Inl TypeError
             else
               let grad = gradient3_with pmul N dm (case this_P t of Some P \<Rightarrow> P | None \<Rightarrow> [])
                            grad0 Y
               in (case descend newgain3_of N dm momval (epsilon t) grad gains ystep Y of
                     (gains', ystep', Y', ymean) \<Rightarrow>
                       Inr (t\<lparr>this_iter := iter,
                              this_grad := Some grad,
                              this_gains := Some gains',
                              this_ystep := Some ystep',
                              this_Y := Some (center N dm ymean Y')\<rparr>))
      | _ \<Rightarrow> Inl TypeError)"

definition next3 :: "tsne \<Rightarrow> error + tsne" where
  "next3 t = (let iter = this_iter t + 1 in next3_with iter (pmul_of iter) (momval_of iter) t)"

section \<open>Inputs and initialized objects\<close>

text \<open>
  The inputs the model speaks for: a positive perplexity (\<open>Math.log\<close> is \<open>ln\<close> there), at
  least one output dimension, and an \<open>X\<close> that is square when it is announced as a distance
  matrix and else a data matrix, its rows of one length, that has a column when it has a
  row.
\<close>

definition well_formed :: "matrix \<Rightarrow> real \<Rightarrow> nat \<Rightarrow> metric \<Rightarrow> bool" where
  "well_formed X perp dm m \<longleftrightarrow>
     0 < perp \<and> 0 < dm \<and>
     (case m of
        Precomputed \<Rightarrow> shaped (length X) (length X) X
      | Metric f \<Rightarrow> shaped (length X) (length (hd X)) X \<and> (X = [] \<or> hd X \<noteq> []))"

text \<open>An object whose optimizer state exists, with matrices of the right shapes.\<close>

definition ready :: "tsne \<Rightarrow> bool" where
  "ready t \<longleftrightarrow>
     0 < par_d t \<and>
     (case (this_Y t, this_ystep t, this_gains t, this_P t) of
        (Some Y, Some ystep, Some gains, Some P) \<Rightarrow>
          shaped (this_N t) (par_d t) Y \<and> shaped (this_N t) (par_d t) ystep \<and>
          shaped (this_N t) (par_d t) gains \<and> shaped (this_N t) (this_N t) P
      | _ \<Rightarrow> False)"

section \<open>Closed forms of the loops, and the words of the specification\<close>

text \<open>
  The cell \<open>(i, d)\<close> after the gradient step with the gain rule \<open>rule\<close>: the new gain, the
  new velocity and the moved coordinate.
\<close>

definition gain' :: "(real \<Rightarrow> real \<Rightarrow> real \<Rightarrow> real) \<Rightarrow> matrix \<Rightarrow> matrix \<Rightarrow> matrix \<Rightarrow> nat \<Rightarrow> nat \<Rightarrow> real" where
  "gain' rule grad gains ystep i d = rule (entry grad i d) (entry ystep i d) (entry gains i d)"

definition ystep' :: "(real \<Rightarrow> real \<Rightarrow> real \<Rightarrow> real) \<Rightarrow> real \<Rightarrow> real \<Rightarrow> matrix \<Rightarrow> matrix \<Rightarrow> matrix \<Rightarrow> nat \<Rightarrow> nat \<Rightarrow> real" where
  "ystep' rule momval eps grad gains ystep i d =
     momval * entry ystep i d - eps * gain' rule grad gains ystep i d * entry grad i d"

definition moved :: "(real \<Rightarrow> real \<Rightarrow> real \<Rightarrow> real) \<Rightarrow> real \<Rightarrow> real \<Rightarrow> matrix \<Rightarrow> matrix \<Rightarrow> matrix \<Rightarrow> matrix \<Rightarrow> nat \<Rightarrow> nat \<Rightarrow> real" where
  "moved rule momval eps grad gains ystep Y i d =
     entry Y i d + ystep' rule momval eps grad gains ystep i d"

text \<open>
  The gradient in the words of the specification: \<open>Q[i,j] = 1 / (1 + \<parallel>y_i - y_j\<parallel>\<^sup>2)\<close>,
  \<open>qsum\<close> the sum of \<open>Q\<close> over the pairs \<open>i \<noteq> j\<close>, and
  \<open>g_i[d] = 4 \<cdot> \<Sum>_{j \<noteq> i} (pmul \<cdot> P[i,j] - Q[i,j] / qsum) \<cdot> Q[i,j] \<cdot> (y_i[d] - y_j[d])\<close>.
\<close>

definition Q_spec :: "nat \<Rightarrow> matrix \<Rightarrow> nat \<Rightarrow> nat \<Rightarrow> real" where
  "Q_spec dm Y i j = 1 / (1 + (\<Sum>d<dm. (entry Y i d - entry Y j d)\<^sup>2))"

definition qsum_spec :: "nat \<Rightarrow> nat \<Rightarrow> matrix \<Rightarrow> real" where
  "qsum_spec N dm Y = (\<Sum>i<N. \<Sum>j\<in>{..<N} - {i}. Q_spec dm Y i j)"

definition gradient_spec :: "nat \<Rightarrow> nat \<Rightarrow> real \<Rightarrow> matrix \<Rightarrow> matrix \<Rightarrow> nat \<Rightarrow> nat \<Rightarrow> real" where
  "gradient_spec N dm pmul P Y i d =
     4 * (\<Sum>j\<in>{..<N} - {i}.
            (pmul * entry P i j - Q_spec dm Y i j / qsum_spec N dm Y) * Q_spec dm Y i j *
            (entry Y i d - entry Y j d))"

text \<open>The term of the pair \<open>(i, j)\<close> in the gradient of the cell \<open>(i, c)\<close>.\<close>

definition pull :: "real \<Rightarrow> matrix \<Rightarrow> matrix \<Rightarrow> real \<Rightarrow> matrix \<Rightarrow> nat \<Rightarrow> nat \<Rightarrow> nat \<Rightarrow> real" where
  "pull pmul P Q qsum Y i j c =
     4 * (pmul * entry P i j - entry Q i j / qsum) * entry Q i j * (entry Y i c - entry Y j c)"

text \<open>The coordinate of the cell \<open>(i, d)\<close> after the step and the re-centering.\<close>

definition stepped_Y ::
  "(real \<Rightarrow> real \<Rightarrow> real \<Rightarrow> real) \<Rightarrow> nat \<Rightarrow> real \<Rightarrow> real \<Rightarrow> matrix \<Rightarrow> matrix \<Rightarrow> matrix \<Rightarrow> matrix
     \<Rightarrow> nat \<Rightarrow> nat \<Rightarrow> real" where
  "stepped_Y rule N momval eps grad gains ystep Y i d =
     moved rule momval eps grad gains ystep Y i d -
       (\<Sum>r<N. moved rule momval eps grad gains ystep Y r d) / real N"

text \<open>Line 68: the kernel of row \<open>i\<close> at column \<open>j\<close> for the precision \<open>b\<close>.\<close>

definition kern :: "nat \<Rightarrow> real list \<Rightarrow> real \<Rightarrow> nat \<Rightarrow> real" where
  "kern i dist_i b j = (if i \<noteq> j then exp (- dist_i ! j * b) else 1 / 10 ^ 9)"

text \<open>What a finished pass leaves behind: the kernel of some precision and its sum.\<close>

definition row_inv :: "nat \<Rightarrow> nat \<Rightarrow> real list \<Rightarrow> search \<Rightarrow> bool" where
  "row_inv N i dist_i s \<longleftrightarrow>
     (\<exists>b. prow_of s = map (kern i dist_i b) [0..<N] \<and> psum_of s = (\<Sum>j<N. kern i dist_i b j))"

text \<open>
  An object on a well-formed input: \<open>_N\<close> is the number of rows of \<open>X\<close>, as the constructor
  sets it.
\<close>

definition input_ok :: "'c tsne_of \<Rightarrow> bool" where
  "input_ok t \<longleftrightarrow>
     this_N t = length (this_X t) \<and>
     well_formed (this_X t) (perplexity t) (par_d t) (par_metric t)"

text \<open>
  The entropy of row \<open>i\<close> for the precision \<open>b\<close> in the words of the specification:
  \<open>H = log(\<Sum>_j p_{j|i}) + \<beta>_i \<cdot> (\<Sum>_j \<Delta>[i,j] \<cdot> p_{j|i}) / \<Sum>_j p_{j|i}\<close>.
\<close>

definition H_spec :: "nat \<Rightarrow> nat \<Rightarrow> real list \<Rightarrow> real \<Rightarrow> real" where
  "H_spec N i dist_i b =
     ln (\<Sum>j<N. kern i dist_i b j) +
     b * (\<Sum>j<N. dist_i ! j * kern i dist_i b j) / (\<Sum>j<N. kern i dist_i b j)"

text \<open>An object of the second version after \<open>init()\<close>: its fields are defined.\<close>

definition ready2 :: "tsne2 \<Rightarrow> bool" where
  "ready2 t \<longleftrightarrow>
     0 < par_d t \<and> this_Y t \<noteq> None \<and> this_ystep t \<noteq> None \<and> this_gains t \<noteq> None \<and>
     this_P t \<noteq> None"

text \<open>The parts of the object that no call of \<open>next()\<close> writes.\<close>

definition same_config :: "tsne \<Rightarrow> tsne \<Rightarrow> bool" where
  "same_config t t' \<longleftrightarrow>
     this_X t' = this_X t \<and> perplexity t' = perplexity t \<and> epsilon t' = epsilon t \<and>
     par_d t' = par_d t \<and> par_metric t' = par_metric t \<and> gauss t' = gauss t \<and>
     rng t' = rng t \<and> this_N t' = this_N t \<and> this_P t' = this_P t"

text \<open>An object of src/src/dimred/TSNE.js after \<open>init()\<close>.\<close>

definition ready3 :: "tsne \<Rightarrow> bool" where
  "ready3 t \<longleftrightarrow>
     0 < par_d t \<and> this_P t \<noteq> None \<and>
     (case (this_Y t, this_ystep t, this_gains t, this_grad t) of
        (Some Y, Some ystep, Some gains, Some grad) \<Rightarrow>
          shaped (this_N t) (par_d t) Y \<and> shaped (this_N t) (par_d t) ystep \<and>
          shaped (this_N t) (par_d t) gains \<and> shaped (this_N t) (par_d t) grad
      | _ \<Rightarrow> False)"

text \<open>The precisions of a search are positive.\<close>

definition positive_search :: "search \<Rightarrow> bool" where
  "positive_search s \<longleftrightarrow>
     0 < beta s \<and> (case betamin s of None \<Rightarrow> True | Some b \<Rightarrow> 0 < b) \<and>
     (case betamax s of None \<Rightarrow> True | Some b \<Rightarrow> 0 < b)"

text \<open>
  The rule of the gain in the words of the specification: \<open>+0.2\<close> when the sign of the
  gradient disagrees with the sign of the velocity, \<open>\<times>0.8\<close> otherwise, with the floor \<open>0.01\<close>.
\<close>

definition gain_rule_spec :: "real \<Rightarrow> real \<Rightarrow> real \<Rightarrow> real" where
  "gain_rule_spec g v gain = max (if sgn g \<noteq> sgn v then gain + 0.2 else gain * 0.8) 0.01"

section \<open>Loops over index ranges, matrices in closed form\<close>

lemma fold_upt_invariant:
  assumes "a \<le> n" and "I a s"
    and "\<And>k s. a \<le> k \<Longrightarrow> k < n \<Longrightarrow> I k s \<Longrightarrow> I (Suc k) (f k s)"
  shows "I n (fold f [a..<n] s)"
proof -
  have "a \<le> m \<Longrightarrow> m \<le> n \<Longrightarrow> I m (fold f [a..<m] s)" for m
  proof (induction m)
    case 0
    then show ?case using assms(2) by simp
  next
    case (Suc m)
    show ?case
    proof (cases "a = Suc m")
      case True
      then show ?thesis using assms(2) by simp
    next
      case False
      with Suc.prems have le: "a \<le> m" "m < n" by simp_all
      then have "I m (fold f [a..<m] s)" using Suc.IH by simp
      then have "I (Suc m) (f m (fold f [a..<m] s))"
        using assms(3) le by simp
      then show ?thesis using le by simp
    qed
  qed
  then show ?thesis using assms(1) by simp
qed

lemma length_Matrix [simp]: "length (Matrix rows cols f) = rows"
  by (simp add: Matrix_def)

lemma nth_Matrix [simp]: "i < rows \<Longrightarrow> Matrix rows cols f ! i = map (f i) [0..<cols]"
  by (simp add: Matrix_def)

lemma entry_Matrix [simp]: "i < rows \<Longrightarrow> j < cols \<Longrightarrow> entry (Matrix rows cols f) i j = f i j"
  by (simp add: entry_def)

lemma shaped_Matrix [simp]: "shaped rows cols (Matrix rows cols f)"
  by (simp add: shaped_def Matrix_def list_all_iff)

lemma shaped_eq_Matrix: "shaped rows cols M \<Longrightarrow> M = Matrix rows cols (entry M)"
  by (auto simp: shaped_def Matrix_def entry_def list_all_iff intro!: nth_equalityI)

lemma Matrix_cong:
  "(\<And>i j. i < rows \<Longrightarrow> j < cols \<Longrightarrow> f i j = g i j) \<Longrightarrow> Matrix rows cols f = Matrix rows cols g"
  by (simp add: Matrix_def)

lemma set_entry_Matrix:
  "set_entry (Matrix rows cols f) i j v =
     Matrix rows cols (\<lambda>r c. if r = i \<and> c = j then v else f r c)"
proof (cases "i < rows")
  case True
  show ?thesis
    unfolding set_entry_def
  proof (rule nth_equalityI)
    show "length ((Matrix rows cols f)[i := (Matrix rows cols f ! i)[j := v]]) =
          length (Matrix rows cols (\<lambda>r c. if r = i \<and> c = j then v else f r c))"
      by simp
  next
    fix r assume "r < length ((Matrix rows cols f)[i := (Matrix rows cols f ! i)[j := v]])"
    then have r: "r < rows" by simp
    show "(Matrix rows cols f)[i := (Matrix rows cols f ! i)[j := v]] ! r =
          Matrix rows cols (\<lambda>r c. if r = i \<and> c = j then v else f r c) ! r"
      using r True by (auto simp: nth_list_update intro!: nth_equalityI)
  qed
next
  case False
  then have "(Matrix rows cols f)[i := x] = Matrix rows cols f" for x
    by (intro list_update_beyond) simp
  moreover have "Matrix rows cols (\<lambda>r c. if r = i \<and> c = j then v else f r c) = Matrix rows cols f"
    using False by (intro Matrix_cong) auto
  ultimately show ?thesis by (simp add: set_entry_def)
qed

lemma add_entry_Matrix:
  "i < rows \<Longrightarrow> j < cols \<Longrightarrow> add_entry (Matrix rows cols f) i j v =
     Matrix rows cols (\<lambda>r c. if r = i \<and> c = j then f i j + v else f r c)"
  by (simp add: add_entry_def set_entry_Matrix)

lemma sub_entry_Matrix:
  "i < rows \<Longrightarrow> j < cols \<Longrightarrow> sub_entry (Matrix rows cols f) i j v =
     Matrix rows cols (\<lambda>r c. if r = i \<and> c = j then f i j - v else f r c)"
  by (simp add: sub_entry_def set_entry_Matrix)

section \<open>The loops of \<open>next()\<close>\<close>

lemma map_upt_update:
  "(map h [0..<n])[k := v] = map (\<lambda>c. if c = k then v else h c) [0..<n]"
  by (auto intro!: nth_equalityI simp: nth_list_update)

lemma descend_row:
  fixes G S Yf :: "nat \<Rightarrow> nat \<Rightarrow> real"
  assumes i: "i < N"
  shows "fold (descend_cell rule momval eps grad i) [0..<dm]
           (Matrix N dm (\<lambda>r c. if r < i then ng r c else G r c),
            Matrix N dm (\<lambda>r c. if r < i then ns r c else S r c),
            Matrix N dm (\<lambda>r c. if r < i then ny r c else Yf r c),
            map (\<lambda>c. \<Sum>r<i. ny' r c) [0..<dm]) =
         (Matrix N dm (\<lambda>r c. if r < i then ng r c else if r = i then
              rule (entry grad i c) (S i c) (G i c) else G r c),
          Matrix N dm (\<lambda>r c. if r < i then ns r c else if r = i then
              momval * S i c - eps * rule (entry grad i c) (S i c) (G i c) * entry grad i c else S r c),
          Matrix N dm (\<lambda>r c. if r < i then ny r c else if r = i then
              Yf i c + (momval * S i c - eps * rule (entry grad i c) (S i c) (G i c) * entry grad i c) else Yf r c),
          map (\<lambda>c. (\<Sum>r<i. ny' r c) + (Yf i c + (momval * S i c - eps * rule (entry grad i c) (S i c) (G i c) * entry grad i c))) [0..<dm])"
    (is "fold ?f _ ?s0 = ?res")
proof -
  let ?g = "\<lambda>c. rule (entry grad i c) (S i c) (G i c)"
  let ?v = "\<lambda>c. momval * S i c - eps * ?g c * entry grad i c"
  let ?I = "\<lambda>k st. st =
         (Matrix N dm (\<lambda>r c. if r < i then ng r c else if r = i \<and> c < k then ?g c else G r c),
          Matrix N dm (\<lambda>r c. if r < i then ns r c else if r = i \<and> c < k then ?v c else S r c),
          Matrix N dm (\<lambda>r c. if r < i then ny r c else if r = i \<and> c < k then Yf i c + ?v c else Yf r c),
          map (\<lambda>c. (\<Sum>r<i. ny' r c) + (if c < k then Yf i c + ?v c else 0)) [0..<dm])"
  have "?I dm (fold ?f [0..<dm] ?s0)"
  proof (rule fold_upt_invariant[where I = ?I])
    show "0 \<le> dm" by simp
    show "?I 0 ?s0" by (auto intro!: Matrix_cong)
  next
    fix k st assume k: "k < dm" and st: "?I k st"
    show "?I (Suc k) (?f k st)"
      unfolding st descend_cell_def
      using i k
      by (auto simp: Let_def set_entry_Matrix add_entry_Matrix map_upt_update
          intro!: Matrix_cong)
  qed
  then show ?thesis
    by (auto intro!: Matrix_cong)
qed

lemma descend_eq:
  assumes "shaped N dm gains" "shaped N dm ystep" "shaped N dm Y"
  shows "descend rule N dm momval eps grad gains ystep Y =
           (Matrix N dm (gain' rule grad gains ystep),
            Matrix N dm (ystep' rule momval eps grad gains ystep),
            Matrix N dm (moved rule momval eps grad gains ystep Y),
            map (\<lambda>d. \<Sum>i<N. moved rule momval eps grad gains ystep Y i d) [0..<dm])"
proof -
  let ?ng = "gain' rule grad gains ystep"
  let ?ns = "ystep' rule momval eps grad gains ystep"
  let ?ny = "moved rule momval eps grad gains ystep Y"
  let ?G = "entry gains" and ?S = "entry ystep" and ?Y = "entry Y"
  let ?I = "\<lambda>i st. st =
         (Matrix N dm (\<lambda>r c. if r < i then ?ng r c else ?G r c),
          Matrix N dm (\<lambda>r c. if r < i then ?ns r c else ?S r c),
          Matrix N dm (\<lambda>r c. if r < i then ?ny r c else ?Y r c),
          map (\<lambda>c. \<Sum>r<i. ?ny r c) [0..<dm])"
  let ?f = "\<lambda>i. fold (descend_cell rule momval eps grad i) [0..<dm]"
  have start: "(gains, ystep, Y, replicate dm (0::real)) =
      (Matrix N dm ?G, Matrix N dm ?S, Matrix N dm ?Y, map (\<lambda>c. 0) [0..<dm])"
    using assms shaped_eq_Matrix[of N dm] by (auto simp: map_replicate_const)
  have "?I N (fold ?f [0..<N] (gains, ystep, Y, replicate dm 0))"
  proof (rule fold_upt_invariant[where I = ?I])
    show "0 \<le> N" by simp
    show "?I 0 (gains, ystep, Y, replicate dm 0)"
      unfolding start by simp
  next
    fix i st assume i: "i < N" and st: "?I i st"
    show "?I (Suc i) (?f i st)"
      unfolding st descend_row[OF i]
      by (auto simp: gain'_def ystep'_def moved_def less_Suc_eq intro!: Matrix_cong)
  qed
  then show ?thesis
    unfolding descend_def by (auto intro!: Matrix_cong)
qed

lemma center_eq:
  "center N dm (map h [0..<dm]) (Matrix N dm Yf) =
     Matrix N dm (\<lambda>i d. Yf i d - h d / real N)"
proof -
  let ?I1 = "\<lambda>k ym. ym = map (\<lambda>c. if c < k then h c / real N else h c) [0..<dm]"
  have "?I1 dm (fold (\<lambda>d ym. ym[d := ym ! d / real N]) [0..<dm] (map h [0..<dm]))"
  proof (rule fold_upt_invariant[where I = ?I1])
    show "0 \<le> dm" by simp
    show "?I1 0 (map h [0..<dm])" by simp
  next
    fix k ym assume k: "k < dm" and ym: "?I1 k ym"
    show "?I1 (Suc k) (ym[k := ym ! k / real N])"
      unfolding ym using k by (auto simp: map_upt_update)
  qed
  then have ymean: "fold (\<lambda>d ym. ym[d := ym ! d / real N]) [0..<dm] (map h [0..<dm]) =
      map (\<lambda>c. h c / real N) [0..<dm]"
    by simp
  let ?m = "map (\<lambda>c. h c / real N) [0..<dm]"
  have row: "fold (\<lambda>d Y. sub_entry Y i d (?m ! d)) [0..<dm]
        (Matrix N dm (\<lambda>r c. if r < i then Yf r c - h c / real N else Yf r c)) =
      Matrix N dm (\<lambda>r c. if r < Suc i then Yf r c - h c / real N else Yf r c)"
    if i: "i < N" for i
  proof -
    let ?I2 = "\<lambda>k Y. Y = Matrix N dm (\<lambda>r c. if r < i \<or> (r = i \<and> c < k)
                                            then Yf r c - h c / real N else Yf r c)"
    have "?I2 dm (fold (\<lambda>d Y. sub_entry Y i d (?m ! d)) [0..<dm]
        (Matrix N dm (\<lambda>r c. if r < i then Yf r c - h c / real N else Yf r c)))"
    proof (rule fold_upt_invariant[where I = ?I2])
      show "0 \<le> dm" by simp
      show "?I2 0 (Matrix N dm (\<lambda>r c. if r < i then Yf r c - h c / real N else Yf r c))"
        by (auto intro!: Matrix_cong)
    next
      fix k Y assume k: "k < dm" and Y: "?I2 k Y"
      show "?I2 (Suc k) (sub_entry Y i k (?m ! k))"
        unfolding Y using i k
        by (auto simp: sub_entry_Matrix intro!: Matrix_cong)
    qed
    then show ?thesis
      by (auto intro!: Matrix_cong)
  qed
  let ?I3 = "\<lambda>i Y. Y = Matrix N dm (\<lambda>r c. if r < i then Yf r c - h c / real N else Yf r c)"
  have "?I3 N (fold (\<lambda>i. fold (\<lambda>d Y. sub_entry Y i d (?m ! d)) [0..<dm]) [0..<N] (Matrix N dm Yf))"
  proof (rule fold_upt_invariant[where I = ?I3])
    show "0 \<le> N" by simp
    show "?I3 0 (Matrix N dm Yf)" by simp
  next
    fix i Y assume i: "i < N" and Y: "?I3 i Y"
    show "?I3 (Suc i) (fold (\<lambda>d Y. sub_entry Y i d (?m ! d)) [0..<dm] Y)"
      unfolding Y row[OF i] ..
  qed
  then show ?thesis
    unfolding center_def Let_def ymean by (auto intro!: Matrix_cong)
qed

lemma centered_column:
  "(\<Sum>i<N. (Yf i - (\<Sum>r<N. Yf r) / real N)) = (0::real)"
  by (cases "N = 0") (simp_all add: sum_subtractf)

lemma dsum_of_eq:
  "dsum_of dm Y i j = (\<Sum>d<dm. (entry Y i d - entry Y j d)\<^sup>2)"
proof -
  let ?I = "\<lambda>k (s::real). s = (\<Sum>d<k. (entry Y i d - entry Y j d)\<^sup>2)"
  have "?I dm (fold (\<lambda>d dsum. let dhere = Y ! i ! d - entry Y j d in dsum + dhere * dhere) [0..<dm] 0)"
    by (rule fold_upt_invariant[where I = ?I]) (simp_all add: Let_def entry_def power2_eq_square)
  then show ?thesis by (simp add: dsum_of_def)
qed

lemma Q_spec_sym: "Q_spec dm Y i j = Q_spec dm Y j i"
  by (simp add: Q_spec_def power2_commute)

lemma Q_spec_pos: "0 < Q_spec dm Y i j"
  by (simp add: Q_spec_def add_pos_nonneg sum_nonneg)

lemma compute_Q_row:
  assumes i: "i < N"
  shows "fold (\<lambda>j (Q, qsum). let qu = 1 / (1 + dsum_of dm Y i j)
                       in (set_entry (set_entry Q i j qu) j i qu, qsum + 2 * qu)) [i + 1..<N]
           (Matrix N N (\<lambda>r c. if r \<noteq> c \<and> (r < i \<or> c < i) then Q_spec dm Y r c else 0), s0) =
         (Matrix N N (\<lambda>r c. if r \<noteq> c \<and> (r < Suc i \<or> c < Suc i) then Q_spec dm Y r c else 0),
          s0 + (\<Sum>c = i + 1..<N. 2 * Q_spec dm Y i c))"
    (is "fold ?f _ ?s0 = _")
proof -
  let ?I = "\<lambda>k st. st =
      (Matrix N N (\<lambda>r c. if r \<noteq> c \<and> (r < i \<or> c < i \<or> (r = i \<and> c < k) \<or> (c = i \<and> r < k))
                           then Q_spec dm Y r c else 0),
       s0 + (\<Sum>c = i + 1..<k. 2 * Q_spec dm Y i c))"
  have "?I N (fold ?f [i + 1..<N] ?s0)"
  proof (rule fold_upt_invariant[where I = ?I])
    show "i + 1 \<le> N" using i by simp
    show "?I (i + 1) ?s0"
      by (auto intro!: Matrix_cong)
  next
    fix k st assume k: "i + 1 \<le> k" "k < N" and st: "?I k st"
    show "?I (Suc k) (?f k st)"
      unfolding st using i k
      by (auto simp: Let_def set_entry_Matrix dsum_of_eq Q_spec_def[symmetric] Q_spec_sym[of dm Y k i]
          intro!: Matrix_cong)
  qed
  then show ?thesis
    by (auto intro!: Matrix_cong)
qed

lemma compute_Q_eq:
  "compute_Q N dm Y =
     (Matrix N N (\<lambda>r c. if r \<noteq> c then Q_spec dm Y r c else 0),
      (\<Sum>r<N. \<Sum>c = r + 1..<N. 2 * Q_spec dm Y r c))"
proof -
  let ?f = "\<lambda>i. fold (\<lambda>j (Q, qsum). let qu = 1 / (1 + dsum_of dm Y i j)
                       in (set_entry (set_entry Q i j qu) j i qu, qsum + 2 * qu)) [i + 1..<N]"
  let ?I = "\<lambda>i st. st =
      (Matrix N N (\<lambda>r c. if r \<noteq> c \<and> (r < i \<or> c < i) then Q_spec dm Y r c else 0),
       (\<Sum>r<i. \<Sum>c = r + 1..<N. 2 * Q_spec dm Y r c))"
  have "?I N (fold ?f [0..<N] (Matrix N N (\<lambda>_ _. 0), 0))"
  proof (rule fold_upt_invariant[where I = ?I])
    show "0 \<le> N" by simp
    show "?I 0 (Matrix N N (\<lambda>_ _. 0), 0)" by simp
  next
    fix i st assume i: "i < N" and st: "?I i st"
    show "?I (Suc i) (?f i st)"
      unfolding st compute_Q_row[OF i] by simp
  qed
  then show ?thesis
    unfolding compute_Q_def by (auto intro!: Matrix_cong)
qed

lemma sum_triangle_swap:
  fixes a :: "nat \<Rightarrow> nat \<Rightarrow> real"
  shows "(\<Sum>r<N. \<Sum>c<r. a r c) = (\<Sum>c<N. \<Sum>r = c + 1..<N. a r c)"
proof (induction N)
  case 0
  show ?case by simp
next
  case (Suc N)
  have "(\<Sum>c<Suc N. \<Sum>r = c + 1..<Suc N. a r c) = (\<Sum>c<N. \<Sum>r = c + 1..<Suc N. a r c)"
    by simp
  also have "\<dots> = (\<Sum>c<N. (\<Sum>r = c + 1..<N. a r c) + a N c)"
    by (intro sum.cong refl) simp
  also have "\<dots> = (\<Sum>c<N. \<Sum>r = c + 1..<N. a r c) + (\<Sum>c<N. a N c)"
    by (simp add: sum.distrib)
  finally show ?case using Suc.IH by simp
qed

lemma sum_offdiag_sym:
  fixes a :: "nat \<Rightarrow> nat \<Rightarrow> real"
  assumes "\<And>i j. a i j = a j i"
  shows "(\<Sum>r<N. \<Sum>c = r + 1..<N. 2 * a r c) = (\<Sum>r<N. \<Sum>c\<in>{..<N} - {r}. a r c)"
proof -
  have split: "(\<Sum>c\<in>{..<N} - {r}. a r c) = (\<Sum>c<r. a r c) + (\<Sum>c = r + 1..<N. a r c)"
    if "r < N" for r
  proof -
    have "{..<N} - {r} = {..<r} \<union> {r + 1..<N}" using that by auto
    moreover have "{..<r} \<inter> {r + 1..<N} = {}" by auto
    ultimately show ?thesis by (simp add: sum.union_disjoint)
  qed
  have "(\<Sum>r<N. \<Sum>c\<in>{..<N} - {r}. a r c) =
        (\<Sum>r<N. (\<Sum>c<r. a r c) + (\<Sum>c = r + 1..<N. a r c))"
    by (intro sum.cong refl split) simp
  also have "\<dots> = (\<Sum>r<N. \<Sum>c<r. a r c) + (\<Sum>r<N. \<Sum>c = r + 1..<N. a r c)"
    by (simp add: sum.distrib)
  also have "(\<Sum>r<N. \<Sum>c<r. a r c) = (\<Sum>c<N. \<Sum>r = c + 1..<N. a r c)"
    by (rule sum_triangle_swap)
  also have "\<dots> = (\<Sum>r<N. \<Sum>c = r + 1..<N. a r c)"
    using assms by simp
  finally show ?thesis
    by (simp add: sum_distrib_left[symmetric])
qed

lemma gradient_cell:
  assumes i: "i < N"
  shows "fold (\<lambda>d g. add_entry g i d (pm * (Y ! i ! d - entry Y j d))) [0..<dm]
           (Matrix N dm (\<lambda>r c. if r = i then a c else b r c)) =
         Matrix N dm (\<lambda>r c. if r = i then a c + pm * (entry Y i c - entry Y j c) else b r c)"
    (is "fold ?f _ ?s0 = _")
proof -
  let ?I = "\<lambda>k g. g = Matrix N dm (\<lambda>r c. if r = i
                 then a c + (if c < k then pm * (entry Y i c - entry Y j c) else 0) else b r c)"
  have "?I dm (fold ?f [0..<dm] ?s0)"
  proof (rule fold_upt_invariant[where I = ?I])
    show "0 \<le> dm" by simp
    show "?I 0 ?s0" by (auto intro!: Matrix_cong)
  next
    fix k g assume k: "k < dm" and g: "?I k g"
    show "?I (Suc k) (?f k g)"
      unfolding g using i k
      by (auto simp: add_entry_Matrix entry_def intro!: Matrix_cong)
  qed
  then show ?thesis by (auto intro!: Matrix_cong)
qed

lemma gradient_row:
  assumes i: "i < N"
  shows "fold (\<lambda>j grad.
                 if i \<noteq> j
                 then let qu = Q ! i ! j;
                          premult = 4 * (pmul * (P ! i ! j) - qu / qsum) * qu
                      in fold (\<lambda>d g. add_entry g i d (premult * (Y ! i ! d - entry Y j d)))
                           [0..<dm] grad
                 else grad) [0..<N]
           (Matrix N dm (\<lambda>r c. if r < i then full r c else g0 r c)) =
         Matrix N dm (\<lambda>r c. if r < i then full r c
                              else if r = i
                              then g0 i c + (\<Sum>j<N. if j \<noteq> i then pull pmul P Q qsum Y i j c else 0)
                              else g0 r c)"
    (is "fold ?f _ ?s0 = _")
proof -
  let ?I = "\<lambda>k g. g = Matrix N dm (\<lambda>r c. if r = i
                 then g0 i c + (\<Sum>j<k. if j \<noteq> i then pull pmul P Q qsum Y i j c else 0)
                 else if r < i then full r c else g0 r c)"
  have "?I N (fold ?f [0..<N] ?s0)"
  proof (rule fold_upt_invariant[where I = ?I])
    show "0 \<le> N" by simp
    show "?I 0 ?s0" by (auto intro!: Matrix_cong)
  next
    fix k g assume k: "k < N" and g: "?I k g"
    show "?I (Suc k) (?f k g)"
    proof (cases "i = k")
      case True
      then show ?thesis unfolding g by (auto intro!: Matrix_cong)
    next
      case False
      then have "?f k g = Matrix N dm (\<lambda>r c. if r = i
                 then g0 i c + (\<Sum>j<k. if j \<noteq> i then pull pmul P Q qsum Y i j c else 0) +
                      4 * (pmul * (P ! i ! k) - Q ! i ! k / qsum) * (Q ! i ! k) *
                        (entry Y i c - entry Y k c)
                 else if r < i then full r c else g0 r c)"
        unfolding g by (simp only: Let_def if_True gradient_cell[OF i] not_False_eq_True)
      also have "\<dots> = Matrix N dm (\<lambda>r c. if r = i
                 then g0 i c + (\<Sum>j<Suc k. if j \<noteq> i then pull pmul P Q qsum Y i j c else 0)
                 else if r < i then full r c else g0 r c)"
        using False by (intro Matrix_cong) (simp add: pull_def entry_def)
      finally show ?thesis .
    qed
  qed
  then show ?thesis by (auto intro!: Matrix_cong)
qed

lemma gradient_loop_eq:
  "gradient_loop N dm pmul P Q qsum Y (Matrix N dm g0) =
     Matrix N dm (\<lambda>i c. g0 i c + (\<Sum>j\<in>{..<N} - {i}. pull pmul P Q qsum Y i j c))"
proof -
  let ?full = "\<lambda>i c. g0 i c + (\<Sum>j<N. if j \<noteq> i then pull pmul P Q qsum Y i j c else 0)"
  let ?f = "\<lambda>i. fold (\<lambda>j grad.
                 if i \<noteq> j
                 then let qu = Q ! i ! j;
                          premult = 4 * (pmul * (P ! i ! j) - qu / qsum) * qu
                      in fold (\<lambda>d g. add_entry g i d (premult * (Y ! i ! d - entry Y j d)))
                           [0..<dm] grad
                 else grad) [0..<N]"
  let ?I = "\<lambda>i g. g = Matrix N dm (\<lambda>r c. if r < i then ?full r c else g0 r c)"
  have "?I N (fold ?f [0..<N] (Matrix N dm g0))"
  proof (rule fold_upt_invariant[where I = ?I])
    show "0 \<le> N" by simp
    show "?I 0 (Matrix N dm g0)" by simp
  next
    fix i g assume i: "i < N" and g: "?I i g"
    show "?I (Suc i) (?f i g)"
      unfolding g gradient_row[OF i]
      by (auto simp: less_Suc_eq intro!: Matrix_cong)
  qed
  moreover have "(\<Sum>j<N. if j \<noteq> i then pull pmul P Q qsum Y i j c else 0) =
      (\<Sum>j\<in>{..<N} - {i}. pull pmul P Q qsum Y i j c)" for i c
    by (rule sum.mono_neutral_cong_right) auto
  ultimately show ?thesis
    unfolding gradient_loop_def by (auto intro!: Matrix_cong)
qed

lemma gradient_eq:
  "gradient N dm pmul P Y =
     Matrix N dm (\<lambda>i c. \<Sum>j\<in>{..<N} - {i}.
        pull pmul P (fst (compute_Q N dm Y)) (snd (compute_Q N dm Y)) Y i j c)"
  by (simp add: gradient_def split_beta gradient_loop_eq)

lemma shaped_gradient [simp]: "shaped N dm (gradient N dm pmul P Y)"
  by (simp add: gradient_eq)

lemma stepped_Y_fun:
  "stepped_Y rule N momval eps grad gains ystep Y =
     (\<lambda>i d. moved rule momval eps grad gains ystep Y i d -
       (\<Sum>r<N. moved rule momval eps grad gains ystep Y r d) / real N)"
  by (intro ext) (simp add: stepped_Y_def)

lemma ready_fields:
  assumes "ready t"
  obtains Y ystep gains P where
    "this_Y t = Some Y" "this_ystep t = Some ystep" "this_gains t = Some gains"
    "this_P t = Some P" "shaped (this_N t) (par_d t) Y" "shaped (this_N t) (par_d t) ystep"
    "shaped (this_N t) (par_d t) gains" "shaped (this_N t) (this_N t) P" "0 < par_d t"
  using assms unfolding ready_def by (auto split: option.splits)

lemma next_with_eq:
  assumes "ready t"
    and "this_Y t = Some Y" "this_ystep t = Some ystep" "this_gains t = Some gains"
    and "this_P t = Some P"
  shows "next_with iter pmul momval t =
     Inr (t\<lparr>this_iter := iter,
            this_gains := Some (Matrix (this_N t) (par_d t)
               (gain' newgain_of (gradient (this_N t) (par_d t) pmul P Y) gains ystep)),
            this_ystep := Some (Matrix (this_N t) (par_d t)
               (ystep' newgain_of momval (epsilon t) (gradient (this_N t) (par_d t) pmul P Y) gains ystep)),
            this_Y := Some (Matrix (this_N t) (par_d t)
               (stepped_Y newgain_of (this_N t) momval (epsilon t)
                  (gradient (this_N t) (par_d t) pmul P Y) gains ystep Y))\<rparr>)"
proof -
  from assms have sh: "shaped (this_N t) (par_d t) Y" "shaped (this_N t) (par_d t) ystep"
    "shaped (this_N t) (par_d t) gains" and d: "0 < par_d t"
    by (auto simp: ready_def)
  show ?thesis
    unfolding next_with_def
    using d by (simp add: assms(2-5) Let_def descend_eq[OF sh(3,2,1)] center_eq stepped_Y_fun)
qed

lemma ready_next_with:
  assumes "ready t"
  shows "\<exists>t'. next_with iter pmul momval t = Inr t' \<and> ready t' \<and> this_P t' = this_P t
            \<and> this_N t' = this_N t \<and> par_d t' = par_d t \<and> this_iter t' = iter
            \<and> epsilon t' = epsilon t"
proof -
  from assms obtain Y ystep gains P where f:
    "this_Y t = Some Y" "this_ystep t = Some ystep" "this_gains t = Some gains"
    "this_P t = Some P" "shaped (this_N t) (this_N t) P" "0 < par_d t"
    by (rule ready_fields)
  show ?thesis
    unfolding next_with_eq[OF assms f(1-4)]
    using f by (simp add: ready_def)
qed

section \<open>The loops of \<open>init()\<close>\<close>

lemma kern_pos: "0 < kern i dist_i b j"
  by (simp add: kern_def)

lemma kern_sum_pos: "i < N \<Longrightarrow> 0 < (\<Sum>j<N. kern i dist_i b j)"
  by (rule sum_pos) (auto simp: kern_pos)

lemma kernel_pass_eq:
  assumes "length prow0 = N"
  shows "kernel_pass N i dist_i b prow0 =
           (map (kern i dist_i b) [0..<N], (\<Sum>j<N. kern i dist_i b j),
            (\<Sum>j<N. b * dist_i ! j * kern i dist_i b j))"
proof -
  let ?f = "\<lambda>j (prow, psum, dp_sum).
             let dist = dist_i ! j;
                 pj = (if i \<noteq> j then exp (- dist * b) else 1 / 10 ^ 9)
             in (prow[j := pj], psum + pj, dp_sum + b * dist * pj)"
  let ?I = "\<lambda>k st. st =
      (map (\<lambda>j. if j < k then kern i dist_i b j else prow0 ! j) [0..<N],
       (\<Sum>j<k. kern i dist_i b j), (\<Sum>j<k. b * dist_i ! j * kern i dist_i b j))"
  have start: "prow0 = map (\<lambda>j. prow0 ! j) [0..<N]"
    using map_nth[of prow0] assms by simp
  have "?I N (fold ?f [0..<N] (prow0, 0, 0))"
  proof (rule fold_upt_invariant[where I = ?I])
    show "0 \<le> N" by simp
    show "?I 0 (prow0, 0, 0)" using start by simp
  next
    fix k st assume k: "k < N" and st: "?I k st"
    show "?I (Suc k) (?f k st)"
      unfolding st by (auto simp: Let_def map_upt_update kern_def less_Suc_eq)
  qed
  then show ?thesis by (simp add: kernel_pass_def)
qed

lemma row_inv_length: "row_inv N i dist_i s \<Longrightarrow> length (prow_of s) = N"
  by (auto simp: row_inv_def)

lemma search_pass_inv:
  "length (prow_of s) = N \<Longrightarrow> row_inv N i dist_i (search_pass N Htarget i dist_i s)"
  unfolding row_inv_def search_pass_def
  by (rule exI[of _ "beta s"]) (simp add: kernel_pass_eq Let_def)

lemma search_pass2_inv:
  "length (prow_of s) = N \<Longrightarrow> row_inv N i dist_i (search_pass2 N Htarget i dist_i s)"
  unfolding row_inv_def search_pass2_def
  by (rule exI[of _ "beta s"]) (simp add: kernel_pass_eq Let_def)

lemma search_loop_inv:
  assumes pass: "\<And>s. length (prow_of s) = N \<Longrightarrow> row_inv N i dist_i (pass s)"
  shows "row_inv N i dist_i s \<Longrightarrow> row_inv N i dist_i (snd (search_loop pass cnt s))"
proof (induction cnt arbitrary: s)
  case 0
  then show ?case by simp
next
  case (Suc cnt)
  then show ?case
    using pass row_inv_length by auto
qed

lemma search_loop_first:
  assumes pass: "\<And>s. length (prow_of s) = N \<Longrightarrow> row_inv N i dist_i (pass s)"
    and "length prow = N"
  shows "row_inv N i dist_i (snd (search_loop pass maxtries (search_start prow)))"
proof -
  have m: "maxtries = Suc 49" by (simp add: maxtries_def)
  have "search_loop pass maxtries (search_start prow) =
      search_loop pass 49 (pass (search_start prow))"
    unfolding m by (subst search_loop.simps) (simp add: search_start_def)
  moreover have "row_inv N i dist_i (pass (search_start prow))"
    using assms by (simp add: search_start_def)
  ultimately show ?thesis
    using search_loop_inv[OF pass] by simp
qed

lemma fold_scale:
  assumes "length prow = N"
  shows "fold (\<lambda>j prow. prow[j := f (prow ! j)]) [0..<N] prow = map f prow"
proof -
  let ?I = "\<lambda>k r. r = map (\<lambda>j. if j < k then f (prow ! j) else prow ! j) [0..<N]"
  have "?I N (fold (\<lambda>j prow. prow[j := f (prow ! j)]) [0..<N] prow)"
  proof (rule fold_upt_invariant[where I = ?I])
    show "0 \<le> N" by simp
    show "?I 0 prow" using map_nth[of prow] assms by simp
  next
    fix k r assume k: "k < N" and r: "?I k r"
    show "?I (Suc k) (r[k := f (r ! k)])"
      unfolding r using k by (auto simp: map_upt_update less_Suc_eq)
  qed
  then show ?thesis
    using assms by (auto intro!: nth_equalityI)
qed

lemma sum_list_kern: "sum_list (map (\<lambda>x. x * c) (map g [0..<N])) = (\<Sum>j<N. g j) * (c::real)"
  by (simp add: sum_list_sum_nth sum_distrib_right atLeast0LessThan)

lemma affinity_row_eq:
  assumes "shaped N N P" "i < N"
  shows "shaped N N (affinity_row N Htarget Delta i P)"
    and "sum_list (affinity_row N Htarget Delta i P ! i) = 1 / (2 * real N)"
    and "\<And>r. r \<noteq> i \<Longrightarrow> affinity_row N Htarget Delta i P ! r = P ! r"
proof -
  have len: "length (P ! i) = N"
    using assms by (simp add: shaped_def list_all_length)
  let ?s = "snd (search_row N Htarget i (Delta ! i) (P ! i))"
  have "row_inv N i (Delta ! i) ?s"
    unfolding search_row_def using search_pass_inv len by (rule search_loop_first)
  then obtain b where b: "prow_of ?s = map (kern i (Delta ! i) b) [0..<N]"
    "psum_of ?s = (\<Sum>j<N. kern i (Delta ! i) b j)"
    by (auto simp: row_inv_def)
  have row: "affinity_row N Htarget Delta i P =
      P[i := map (\<lambda>p. p * (1 / (2 * real N * psum_of ?s))) (prow_of ?s)]"
    unfolding affinity_row_def Let_def
    by (subst fold_scale) (simp_all add: b)
  show "shaped N N (affinity_row N Htarget Delta i P)"
    using assms unfolding row by (auto simp: shaped_def list_all_length nth_list_update b)
  have pos: "0 < psum_of ?s" unfolding b by (rule kern_sum_pos) fact
  have "affinity_row N Htarget Delta i P ! i =
      map (\<lambda>p. p * (1 / (2 * real N * psum_of ?s))) (map (kern i (Delta ! i) b) [0..<N])"
    using assms unfolding row b(1) by (simp add: shaped_def)
  then have "sum_list (affinity_row N Htarget Delta i P ! i) =
      (\<Sum>j<N. kern i (Delta ! i) b j) * (1 / (2 * real N * psum_of ?s))"
    by (simp only: sum_list_kern)
  also have "\<dots> = psum_of ?s * (1 / (2 * real N * psum_of ?s))"
    by (simp only: b(2))
  also have "\<dots> = 1 / (2 * real N)"
    using pos by simp
  finally show "sum_list (affinity_row N Htarget Delta i P ! i) = 1 / (2 * real N)" .
  show "\<And>r. r \<noteq> i \<Longrightarrow> affinity_row N Htarget Delta i P ! r = P ! r"
    unfolding row by simp
qed

lemma affinities_eq:
  "shaped N N (affinities N Htarget Delta) \<and>
   (\<forall>i<N. sum_list (affinities N Htarget Delta ! i) = 1 / (2 * real N))"
proof -
  let ?I = "\<lambda>k P. shaped N N P \<and> (\<forall>i<k. sum_list (P ! i) = 1 / (2 * real N))"
  have "?I N (fold (affinity_row N Htarget Delta) [0..<N] (Matrix N N (\<lambda>_ _. 0)))"
  proof (rule fold_upt_invariant[where I = ?I])
    show "0 \<le> N" by simp
    show "?I 0 (Matrix N N (\<lambda>_ _. 0))" by simp
  next
    fix k P assume k: "k < N" and P: "?I k P"
    show "?I (Suc k) (affinity_row N Htarget Delta k P)"
      using affinity_row_eq[of N P k] P k
      by (auto simp: less_Suc_eq)
  qed
  then show ?thesis by (simp add: affinities_def)
qed

lemma symmetrize_row:
  assumes i: "i < N"
  shows "fold (\<lambda>j P. let v = P ! i ! j + entry P j i
                      in set_entry (set_entry P i j v) j i v) [i..<N]
           (Matrix N N (\<lambda>r c. if r < i \<or> c < i then e r c + e c r else e r c)) =
         Matrix N N (\<lambda>r c. if r < Suc i \<or> c < Suc i then e r c + e c r else e r c)"
    (is "fold ?f _ ?s0 = _")
proof -
  let ?I = "\<lambda>k P. P = Matrix N N (\<lambda>r c.
      if r < i \<or> c < i \<or> (r = i \<and> c < k) \<or> (c = i \<and> r < k) then e r c + e c r else e r c)"
  have "?I N (fold ?f [i..<N] ?s0)"
  proof (rule fold_upt_invariant[where I = ?I])
    show "i \<le> N" using i by simp
    show "?I i ?s0" by (auto intro!: Matrix_cong)
  next
    fix k P assume k: "i \<le> k" "k < N" and P: "?I k P"
    show "?I (Suc k) (?f k P)"
      unfolding P using i k
      by (auto simp: Let_def set_entry_Matrix entry_def[symmetric] intro!: Matrix_cong)
  qed
  then show ?thesis
    by (auto intro!: Matrix_cong)
qed

lemma symmetrize_eq:
  assumes "shaped N N P0"
  shows "symmetrize N P0 = Matrix N N (\<lambda>r c. entry P0 r c + entry P0 c r)"
proof -
  let ?e = "entry P0"
  let ?f = "\<lambda>i. fold (\<lambda>j P. let v = P ! i ! j + entry P j i
                      in set_entry (set_entry P i j v) j i v) [i..<N]"
  let ?I = "\<lambda>i P. P = Matrix N N (\<lambda>r c. if r < i \<or> c < i then ?e r c + ?e c r else ?e r c)"
  have "?I N (fold ?f [0..<N] P0)"
  proof (rule fold_upt_invariant[where I = ?I])
    show "0 \<le> N" by simp
    show "?I 0 P0" using shaped_eq_Matrix[OF assms] by simp
  next
    fix i P assume i: "i < N" and P: "?I i P"
    show "?I (Suc i) (?f i P)"
      unfolding P by (rule symmetrize_row[OF i])
  qed
  then show ?thesis
    unfolding symmetrize_def by (auto intro!: Matrix_cong)
qed

lemma row_sum_entry:
  assumes "shaped N N P" "i < N"
  shows "(\<Sum>j<N. entry P i j) = sum_list (P ! i)"
proof -
  have "length (P ! i) = N" using assms by (simp add: shaped_def list_all_length)
  then show ?thesis
    by (simp add: sum_list_sum_nth entry_def atLeast0LessThan)
qed

lemma total_symmetrize:
  assumes "shaped N N P0"
  shows "sum_entries N N (symmetrize N P0) = 2 * sum_entries N N P0"
proof -
  have "sum_entries N N (symmetrize N P0) = (\<Sum>i<N. \<Sum>j<N. entry P0 i j + entry P0 j i)"
    unfolding sum_entries_def symmetrize_eq[OF assms] by simp
  also have "\<dots> = (\<Sum>i<N. \<Sum>j<N. entry P0 i j) + (\<Sum>i<N. \<Sum>j<N. entry P0 j i)"
    by (simp add: sum.distrib)
  also have "(\<Sum>i<N. \<Sum>j<N. entry P0 j i) = (\<Sum>i<N. \<Sum>j<N. entry P0 i j)"
    by (rule sum.swap)
  finally show ?thesis by (simp add: sum_entries_def)
qed

lemma total_affinities:
  assumes "0 < N"
  shows "sum_entries N N (affinities N Htarget Delta) = 1 / 2"
proof -
  have "sum_entries N N (affinities N Htarget Delta) = (\<Sum>i<N. 1 / (2 * real N))"
    unfolding sum_entries_def using affinities_eq[of N Htarget Delta]
    by (intro sum.cong refl) (simp add: row_sum_entry)
  also have "\<dots> = 1 / 2" using assms by simp
  finally show ?thesis .
qed

lemma init_P:
  "this_P (init_from Delta t) =
     Some (symmetrize (this_N t) (affinities (this_N t) (ln (perplexity t)) Delta))"
  by (simp add: init_from_def Let_def)

lemma ready_init: "0 < par_d t \<Longrightarrow> ready (init_from Delta t)"
  using affinities_eq[of "this_N t" "ln (perplexity t)" Delta]
  by (simp add: ready_def init_from_def Let_def fresh_Y_def symmetrize_eq)

lemma shaped_set_entry:
  assumes "shaped r c M"
  shows "shaped r c (set_entry M i j v)"
proof (cases "i < length M")
  case True
  have "length (set_entry M i j v ! n) = c" if "n < length M" for n
    using that assms True unfolding shaped_def set_entry_def list_all_length
    by (cases "n = i") simp_all
  then show ?thesis
    using assms unfolding shaped_def list_all_length
    by (simp add: set_entry_def)
next
  case False
  then have "set_entry M i j v = M"
    unfolding set_entry_def by (intro list_update_beyond) simp
  then show ?thesis
    using assms by simp
qed

lemma shaped_storage: "shaped r c M \<Longrightarrow> 0 < r \<Longrightarrow> 0 < c \<Longrightarrow> has_storage M"
  unfolding shaped_def has_storage_def by (cases M) auto

lemma distance_matrix_ok:
  assumes "A = [] \<or> hd A \<noteq> []"
  shows "\<exists>D. distance_matrix A f = Inr D \<and> shaped (length A) (length A) D"
proof -
  let ?n = "length A"
  let ?D = "fold (\<lambda>i. fold (\<lambda>j D. let v = f (A ! i) (A ! j)
                                   in set_entry (set_entry D i j v) j i v) [i + 1..<?n])
              [0..<?n] (Matrix ?n ?n (\<lambda>_ _. 0))"
  have "distance_matrix A f = Inr ?D"
    using assms by (auto simp: distance_matrix_def Let_def has_storage_def)
  moreover have "shaped ?n ?n ?D"
  proof (rule fold_upt_invariant[where I = "\<lambda>_ D. shaped ?n ?n D"])
    show "shaped ?n ?n (Matrix ?n ?n (\<lambda>_ _. 0))" by simp
  next
    fix i D assume "0 \<le> i" "i < ?n" "shaped ?n ?n D"
    then show "shaped ?n ?n (fold (\<lambda>j D. let v = f (A ! i) (A ! j)
                                   in set_entry (set_entry D i j v) j i v) [i + 1..<?n] D)"
      by (intro fold_upt_invariant[where I = "\<lambda>_ D. shaped ?n ?n D"])
         (simp_all add: Let_def shaped_set_entry)
  qed simp
  ultimately show ?thesis by blast
qed

lemma Delta_of_ok:
  assumes "input_ok t"
  shows "\<exists>Delta. Delta_of t = Inr Delta \<and> (0 < this_N t \<longrightarrow> has_storage Delta)"
proof (cases "par_metric t")
  case Precomputed
  with assms have "shaped (this_N t) (this_N t) (this_X t)"
    by (simp add: input_ok_def well_formed_def)
  then show ?thesis
    using Precomputed by (auto simp: Delta_of_def intro: shaped_storage)
next
  case (Metric f)
  with assms have "this_X t = [] \<or> hd (this_X t) \<noteq> []" and N: "this_N t = length (this_X t)"
    by (simp_all add: input_ok_def well_formed_def)
  from distance_matrix_ok[OF this(1), of f] obtain D where
    "distance_matrix (this_X t) f = Inr D" "shaped (this_N t) (this_N t) D"
    using N by auto
  then show ?thesis
    using Metric by (auto simp: Delta_of_def intro: shaped_storage)
qed

lemma init_ok:
  assumes "input_ok t"
  shows "\<exists>Delta. Delta_of t = Inr Delta \<and> init t = Inr (init_from Delta t)"
  using Delta_of_ok[OF assms] by (auto simp: init_def)

lemma input_ok_TSNE [simp]:
  "input_ok (TSNE X perp eps dm m g) \<longleftrightarrow> well_formed X perp dm m"
  by (simp add: input_ok_def TSNE_def)

section \<open>Runs of the first version\<close>

lemma steps_Suc_right:
  "steps nxt (Suc k) t = (case steps nxt k t of Inl e \<Rightarrow> Inl e | Inr t' \<Rightarrow> nxt t')"
proof (induction k arbitrary: t)
  case 0
  show ?case by (simp split: sum.splits)
next
  case (Suc k)
  show ?case
  proof (cases "nxt t")
    case (Inl e)
    then show ?thesis by simp
  next
    case (Inr t1)
    have "steps nxt (Suc (Suc k)) t = steps nxt (Suc k) t1"
      using Inr by simp
    also have "\<dots> = (case steps nxt k t1 of Inl e \<Rightarrow> Inl e | Inr t' \<Rightarrow> nxt t')"
      by (rule Suc.IH)
    also have "steps nxt k t1 = steps nxt (Suc k) t"
      using Inr by simp
    finally show ?thesis .
  qed
qed

lemma ready_next:
  assumes "ready t"
  shows "\<exists>t'. next t = Inr t' \<and> ready t' \<and> this_P t' = this_P t
            \<and> this_N t' = this_N t \<and> par_d t' = par_d t \<and> this_iter t' = this_iter t + 1
            \<and> epsilon t' = epsilon t"
  unfolding next_def Let_def by (rule ready_next_with[OF assms])

lemma ready_steps:
  assumes "ready t"
  shows "\<exists>t'. steps next k t = Inr t' \<and> ready t' \<and> this_P t' = this_P t
            \<and> this_N t' = this_N t \<and> par_d t' = par_d t \<and> this_iter t' = this_iter t + k
            \<and> epsilon t' = epsilon t"
  using assms
proof (induction k arbitrary: t)
  case 0
  then show ?case by simp
next
  case (Suc k)
  from ready_next[OF Suc.prems] obtain t1 where t1: "next t = Inr t1" "ready t1"
    "this_P t1 = this_P t" "this_N t1 = this_N t" "par_d t1 = par_d t"
    "this_iter t1 = this_iter t + 1" "epsilon t1 = epsilon t"
    by blast
  from Suc.IH[OF t1(2)] show ?case
    using t1 by auto
qed

lemma TSNE_fields [simp]:
  "this_N (TSNE X perp eps dm m g) = length X"
  "par_d (TSNE X perp eps dm m g) = dm"
  "this_iter (TSNE X perp eps dm m g) = 0"
  "epsilon (TSNE X perp eps dm m g) = eps"
  "perplexity (TSNE X perp eps dm m g) = perp"
  "this_X (TSNE X perp eps dm m g) = X"
  "par_metric (TSNE X perp eps dm m g) = m"
  "rng (TSNE X perp eps dm m g) = 0"
  "gauss (TSNE X perp eps dm m g) = g"
  by (simp_all add: TSNE_def)

lemma init_fields [simp]:
  "this_N (init_from Delta t) = this_N t"
  "par_d (init_from Delta t) = par_d t"
  "this_iter (init_from Delta t) = this_iter t"
  "epsilon (init_from Delta t) = epsilon t"
  "this_gains (init_from Delta t) = Some (Matrix (this_N t) (par_d t) (\<lambda>_ _. 1))"
  "this_ystep (init_from Delta t) = Some (Matrix (this_N t) (par_d t) (\<lambda>_ _. 0))"
  "this_Y (init_from Delta t) = Some (fresh_Y t)"
  by (simp_all add: init_from_def Let_def)

lemma newgain_of_floor: "1 / 100 \<le> newgain_of gid sid gain"
  by (simp add: newgain_of_def)

lemma next_gain_bound:
  assumes "ready t" "next t = Inr t'" "this_gains t' = Some G'"
    "i < this_N t" "d < par_d t"
  shows "1 / 100 \<le> entry G' i d"
proof -
  from assms(1) obtain Y ystep gains P where f:
    "this_Y t = Some Y" "this_ystep t = Some ystep" "this_gains t = Some gains"
    "this_P t = Some P"
    by (rule ready_fields)
  have "G' = Matrix (this_N t) (par_d t)
      (gain' newgain_of (gradient (this_N t) (par_d t) (pmul_of (this_iter t + 1)) P Y) gains ystep)"
    using assms(2,3) unfolding next_def Let_def next_with_eq[OF assms(1) f]
    by auto
  then have "entry G' i d =
      gain' newgain_of (gradient (this_N t) (par_d t) (pmul_of (this_iter t + 1)) P Y) gains ystep i d"
    using assms(4,5) by simp
  then show ?thesis
    unfolding gain'_def by (simp only: newgain_of_floor)
qed

lemma next_Y_centered:
  assumes "ready t" "next t = Inr t'" "this_Y t' = Some Y'" "d < par_d t"
  shows "(\<Sum>i<this_N t. entry Y' i d) = 0"
proof -
  from assms(1) obtain Y ystep gains P where f:
    "this_Y t = Some Y" "this_ystep t = Some ystep" "this_gains t = Some gains"
    "this_P t = Some P"
    by (rule ready_fields)
  let ?G = "gradient (this_N t) (par_d t) (pmul_of (this_iter t + 1)) P Y"
  let ?mv = "\<lambda>i. moved newgain_of (momval_of (this_iter t + 1)) (epsilon t) ?G gains ystep Y i d"
  have "Y' = Matrix (this_N t) (par_d t)
      (stepped_Y newgain_of (this_N t) (momval_of (this_iter t + 1)) (epsilon t) ?G gains ystep Y)"
    using assms(2,3) unfolding next_def Let_def next_with_eq[OF assms(1) f]
    by auto
  then have "(\<Sum>i<this_N t. entry Y' i d) =
      (\<Sum>i<this_N t. ?mv i - (\<Sum>r<this_N t. ?mv r) / real (this_N t))"
    using assms(4) by (simp add: stepped_Y_def)
  also have "\<dots> = 0"
    by (rule centered_column)
  finally show ?thesis .
qed

lemma run_state:
  assumes "well_formed X perp dm m"
    and "init (TSNE X perp eps dm m g) = Inr t0"
    and "steps next k t0 = Inr t"
  shows "ready t" "this_N t = length X" "par_d t = dm" "this_iter t = k" "epsilon t = eps"
    "this_P t = this_P t0" "ready t0"
proof -
  from init_ok[of "TSNE X perp eps dm m g"] assms(1,2) obtain Delta where
    t0: "t0 = init_from Delta (TSNE X perp eps dm m g)"
    by auto
  show r0: "ready t0"
    unfolding t0 using assms(1) by (intro ready_init) (simp add: well_formed_def)
  from ready_steps[OF r0, of k] assms(3)
  show "ready t" "this_N t = length X" "par_d t = dm" "this_iter t = k" "epsilon t = eps"
    "this_P t = this_P t0"
    by (auto simp: t0)
qed

lemma next_velocity:
  assumes "ready t"
    and "this_Y t = Some Y" "this_ystep t = Some V" "this_gains t = Some G" "this_P t = Some P"
  shows "\<exists>t' V' G' Y'. next t = Inr t' \<and> this_ystep t' = Some V' \<and> this_gains t' = Some G' \<and>
           this_Y t' = Some Y' \<and>
           (\<forall>i<this_N t. \<forall>d<par_d t.
              entry G' i d = newgain_of (entry (gradient (this_N t) (par_d t) (pmul_of (this_iter t + 1)) P Y) i d)
                               (entry V i d) (entry G i d) \<and>
              entry V' i d = momval_of (this_iter t + 1) * entry V i d -
                 epsilon t * entry G' i d *
                 entry (gradient (this_N t) (par_d t) (pmul_of (this_iter t + 1)) P Y) i d \<and>
              entry Y' i d = entry Y i d + entry V' i d -
                 (\<Sum>r<this_N t. entry Y r d + entry V' r d) / real (this_N t))"
  unfolding next_def Let_def next_with_eq[OF assms]
  by (simp add: gain'_def ystep'_def moved_def stepped_Y_def)

subsection \<open>The centering of \<open>Y\<close>\<close>

text \<open>
  Claim C7.  On a well-formed input \<open>init()\<close> and every call of \<open>next()\<close> return.  The call
  that follows \<open>k\<close> earlier calls leaves in every cell of \<open>Y\<close> the coordinate at its start
  plus the new velocity, less the mean of these sums over the points of the same output
  dimension; so the coordinates of every output dimension \<open>d\<close> sum to \<open>0\<close> over the points,
  in exact arithmetic.
\<close>

theorem centered_after_step:
  assumes "well_formed X perp dm m"
  shows "\<exists>t0 t Y t' Y' V'.
           init (TSNE X perp eps dm m g) = Inr t0 \<and> steps next k t0 = Inr t \<and>
           this_Y t = Some Y \<and> next t = Inr t' \<and> steps next (Suc k) t0 = Inr t' \<and>
           this_Y t' = Some Y' \<and> this_ystep t' = Some V' \<and>
           (\<forall>d<dm.
              (\<forall>i<length X. entry Y' i d =
                 entry Y i d + entry V' i d -
                 (\<Sum>r<length X. entry Y r d + entry V' r d) / real (length X)) \<and>
              (\<Sum>i<length X. entry Y' i d) = 0)"
proof -
  from init_ok[of "TSNE X perp eps dm m g"] assms obtain t0 where
    t0: "init (TSNE X perp eps dm m g) = Inr t0"
    by auto
  note r0 = run_state(7)[OF assms t0, of 0 t0, simplified]
  from ready_steps[OF r0, of k] obtain t where t: "steps next k t0 = Inr t"
    by auto
  note st = run_state(1-3)[OF assms t0 t]
  from st(1) obtain Y V G P where f:
    "this_Y t = Some Y" "this_ystep t = Some V" "this_gains t = Some G" "this_P t = Some P"
    by (rule ready_fields)
  from next_velocity[OF st(1) f] obtain t' V' Y' where n: "next t = Inr t'"
    "this_ystep t' = Some V'" "this_Y t' = Some Y'"
    and cell: "\<And>i d. i < length X \<Longrightarrow> d < dm \<Longrightarrow>
      entry Y' i d = entry Y i d + entry V' i d -
        (\<Sum>r<length X. entry Y r d + entry V' r d) / real (length X)"
    unfolding st by blast
  have "steps next (Suc k) t0 = Inr t'"
    unfolding steps_Suc_right using t n by simp
  moreover have "(\<Sum>i<length X. entry Y' i d) = 0" if "d < dm" for d
    using next_Y_centered[OF st(1) n(1,3)] that st by simp
  ultimately show ?thesis
    using t0 t f(1) n cell by blast
qed

theorem centered_after_step_witness:
  "well_formed [[0, 1], [1, 0]] 50 2 Precomputed \<and>
   (\<exists>t0 t Y t' Y' V'.
      init (TSNE [[0, 1], [1, 0]] 50 10 2 Precomputed real) = Inr t0 \<and>
      steps next 4 t0 = Inr t \<and> this_Y t = Some Y \<and> next t = Inr t' \<and>
      this_Y t' = Some Y' \<and> this_ystep t' = Some V' \<and>
      entry Y' 0 1 =
        entry Y 0 1 + entry V' 0 1 -
        (\<Sum>r<length [[0, 1], [1, 0::real]]. entry Y r 1 + entry V' r 1) /
          real (length [[0, 1], [1, 0::real]]) \<and>
      (\<Sum>i<length [[0, 1], [1, 0::real]]. entry Y' i 1) = 0)"
proof -
  have wf: "well_formed [[0, 1], [1, 0]] 50 2 Precomputed"
    by (simp add: well_formed_def shaped_def)
  from centered_after_step[OF wf, of 10 real 4] obtain t0 t Y t' Y' V' where
    a: "init (TSNE [[0, 1], [1, 0]] 50 10 2 Precomputed real) = Inr t0"
      "steps next 4 t0 = Inr t" "this_Y t = Some Y" "next t = Inr t'"
      "this_Y t' = Some Y'" "this_ystep t' = Some V'"
    and b: "\<forall>d<2. (\<forall>i<length [[0, 1], [1, 0::real]]. entry Y' i d =
                 entry Y i d + entry V' i d -
                 (\<Sum>r<length [[0, 1], [1, 0::real]]. entry Y r d + entry V' r d) /
                   real (length [[0, 1], [1, 0::real]])) \<and>
              (\<Sum>i<length [[0, 1], [1, 0::real]]. entry Y' i d) = 0"
    by blast
  from b have c: "(\<forall>i<length [[0, 1], [1, 0::real]]. entry Y' i 1 =
                 entry Y i 1 + entry V' i 1 -
                 (\<Sum>r<length [[0, 1], [1, 0::real]]. entry Y r 1 + entry V' r 1) /
                   real (length [[0, 1], [1, 0::real]])) \<and>
              (\<Sum>i<length [[0, 1], [1, 0::real]]. entry Y' i 1) = 0"
    by (rule allE[of _ 1]) simp
  then have "entry Y' 0 1 =
        entry Y 0 1 + entry V' 0 1 -
        (\<Sum>r<length [[0, 1], [1, 0::real]]. entry Y r 1 + entry V' r 1) /
          real (length [[0, 1], [1, 0::real]])"
    by (elim conjE allE[of _ 0]) simp
  with wf a c show ?thesis by blast
qed

lemma compute_Q_spec:
  "compute_Q N dm Y =
     (Matrix N N (\<lambda>r c. if r \<noteq> c then Q_spec dm Y r c else 0), qsum_spec N dm Y)"
  unfolding compute_Q_eq qsum_spec_def
  using sum_offdiag_sym[of "Q_spec dm Y" N] Q_spec_sym[of dm Y] by simp

lemma gradient_entry:
  assumes "i < N" "d < dm"
  shows "entry (gradient N dm pmul P Y) i d = gradient_spec N dm pmul P Y i d"
proof -
  have "entry (gradient N dm pmul P Y) i d =
      (\<Sum>j\<in>{..<N} - {i}. pull pmul P (Matrix N N (\<lambda>r c. if r \<noteq> c then Q_spec dm Y r c else 0))
          (qsum_spec N dm Y) Y i j d)"
    using assms by (simp add: gradient_eq compute_Q_spec)
  also have "\<dots> = (\<Sum>j\<in>{..<N} - {i}.
            4 * ((pmul * entry P i j - Q_spec dm Y i j / qsum_spec N dm Y) * Q_spec dm Y i j *
            (entry Y i d - entry Y j d)))"
    using assms by (intro sum.cong refl) (auto simp: pull_def)
  also have "\<dots> = gradient_spec N dm pmul P Y i d"
    by (simp only: gradient_spec_def sum_distrib_left)
  finally show ?thesis .
qed

subsection \<open>The gradient\<close>

text \<open>
  Claim C2.  In a run on a well-formed input, the call of \<open>next()\<close> that follows \<open>k\<close> earlier
  calls returns; the matrix \<open>grad\<close> it computes from the embedding \<open>Y\<close> at its start is the
  gradient of the specification with \<open>pmul\<close> taken at the counter \<open>k + 1\<close>, and this is the
  gradient the new velocity is made of.
\<close>

theorem gradient_formula:
  assumes "well_formed X perp dm m"
    and "init (TSNE X perp eps dm m g) = Inr t0"
    and "steps next k t0 = Inr t"
    and "this_Y t = Some Y" "this_ystep t = Some V" "this_P t = Some P"
  shows "\<exists>t' V' G'. next t = Inr t' \<and> this_ystep t' = Some V' \<and> this_gains t' = Some G' \<and>
           (\<forall>i<length X. \<forall>d<dm.
              entry (gradient (length X) dm (pmul_of (k + 1)) P Y) i d =
                gradient_spec (length X) dm (pmul_of (k + 1)) P Y i d \<and>
              entry V' i d = momval_of (k + 1) * entry V i d -
                eps * entry G' i d * gradient_spec (length X) dm (pmul_of (k + 1)) P Y i d)"
proof -
  note st = run_state(1-5)[OF assms(1,2,3)]
  from st(1) obtain G where G: "this_gains t = Some G"
    by (auto elim: ready_fields)
  from next_velocity[OF st(1) assms(4,5) G assms(6)]
  show ?thesis
    unfolding st by (auto simp: gradient_entry)
qed

lemma init_precomputed:
  assumes "has_storage X \<or> X = []"
  shows "init (TSNE X perp eps dm Precomputed g) =
           Inr (init_from X (TSNE X perp eps dm Precomputed g))"
  using assms by (auto simp: init_def Delta_of_def)

theorem gradient_formula_witness:
  "well_formed [[0, 1], [1, 0]] 50 2 Precomputed \<and>
   (\<exists>t0 P t' V' G'.
      init (TSNE [[0, 1], [1, 0]] 50 10 2 Precomputed real) = Inr t0 \<and>
      steps next 0 t0 = Inr t0 \<and> this_P t0 = Some P \<and>
      this_Y t0 = Some (fresh_Y (TSNE [[0, 1], [1, 0]] 50 10 2 Precomputed real :: tsne)) \<and>
      next t0 = Inr t' \<and>
      this_ystep t' = Some V' \<and> this_gains t' = Some G' \<and>
      entry V' 1 0 = momval_of (0 + 1) * entry (Matrix 2 2 (\<lambda>_ _. 0)) 1 0 -
        10 * entry G' 1 0 *
          gradient_spec (length [[0, 1], [1, 0::real]]) 2 (pmul_of (0 + 1)) P
            (fresh_Y (TSNE [[0, 1], [1, 0]] 50 10 2 Precomputed real :: tsne)) 1 0)"
proof -
  let ?c = "TSNE [[0, 1], [1, 0]] 50 10 2 Precomputed real :: tsne"
  let ?t0 = "init_from [[0, 1], [1, 0]] ?c"
  have wf: "well_formed [[0, 1], [1, 0]] 50 2 Precomputed"
    by (simp add: well_formed_def shaped_def)
  have i0: "init ?c = Inr ?t0"
    by (rule init_precomputed) (simp add: has_storage_def)
  have run: "steps next 0 ?t0 = Inr ?t0"
    by simp
  obtain P where P: "this_P ?t0 = Some P"
    by (simp add: init_P)
  have V: "this_ystep ?t0 = Some (Matrix 2 2 (\<lambda>_ _. 0))"
    by (simp add: numeral_2_eq_2)
  have Y: "this_Y ?t0 = Some (fresh_Y ?c)"
    by simp
  from gradient_formula[OF wf i0 run Y V P] obtain t' V' G' where
    a: "next ?t0 = Inr t'" "this_ystep t' = Some V'" "this_gains t' = Some G'"
    and b: "\<And>i d. i < length [[0, 1], [1, 0::real]] \<Longrightarrow> d < 2 \<Longrightarrow>
      entry V' i d = momval_of (0 + 1) * entry (Matrix 2 2 (\<lambda>_ _. 0)) i d -
        10 * entry G' i d *
          gradient_spec (length [[0, 1], [1, 0::real]]) 2 (pmul_of (0 + 1)) P (fresh_Y ?c) i d"
    by blast
  have "entry V' 1 0 = momval_of (0 + 1) * entry (Matrix 2 2 (\<lambda>_ _. 0)) 1 0 -
        10 * entry G' 1 0 *
          gradient_spec (length [[0, 1], [1, 0::real]]) 2 (pmul_of (0 + 1)) P (fresh_Y ?c) 1 0"
    by (rule b) simp_all
  with wf a i0 run P Y show ?thesis by blast
qed

section \<open>The precision search\<close>

lemma kernel_pass_sums:
  "snd (kernel_pass N i dist_i b prow0) =
     ((\<Sum>j<N. kern i dist_i b j), (\<Sum>j<N. b * dist_i ! j * kern i dist_i b j))"
proof -
  let ?f = "\<lambda>j (prow, psum, dp_sum).
             let dist = dist_i ! j;
                 pj = (if i \<noteq> j then exp (- dist * b) else 1 / 10 ^ 9)
             in (prow[j := pj], psum + pj, dp_sum + b * dist * pj)"
  let ?I = "\<lambda>k (st :: real list \<times> real \<times> real). snd st =
      ((\<Sum>j<k. kern i dist_i b j), (\<Sum>j<k. b * dist_i ! j * kern i dist_i b j))"
  have "?I N (fold ?f [0..<N] (prow0, 0, 0))"
  proof (rule fold_upt_invariant[where I = ?I])
    show "0 \<le> N" by simp
    show "?I 0 (prow0, 0, 0)" by simp
  next
    fix k st assume k: "k < N" and st: "?I k st"
    obtain prow psum dp_sum where [simp]: "st = (prow, psum, dp_sum)"
      by (cases st) auto
    show "?I (Suc k) (?f k st)"
      using st by (simp add: Let_def kern_def)
  qed
  then show ?thesis by (simp add: kernel_pass_def)
qed

lemma search_pass_done:
  "is_done (search_pass N Htarget i dist_i s) \<longleftrightarrow>
     \<bar>H_spec N i dist_i (beta s) - Htarget\<bar> < tol"
  and search_pass_psum:
  "psum_of (search_pass N Htarget i dist_i s) = (\<Sum>j<N. kern i dist_i (beta s) j)"
proof -
  obtain prow psum dp_sum where kp: "kernel_pass N i dist_i (beta s) (prow_of s) = (prow, psum, dp_sum)"
    by (cases "kernel_pass N i dist_i (beta s) (prow_of s)") auto
  from kernel_pass_sums[of N i dist_i "beta s" "prow_of s"]
  have sums: "psum = (\<Sum>j<N. kern i dist_i (beta s) j)"
    "dp_sum = (\<Sum>j<N. beta s * dist_i ! j * kern i dist_i (beta s) j)"
    unfolding kp by simp_all
  have "entropy psum dp_sum = H_spec N i dist_i (beta s)"
    unfolding sums entropy_def H_spec_def
    by (simp add: sum_distrib_left mult.assoc)
  then show "is_done (search_pass N Htarget i dist_i s) \<longleftrightarrow>
     \<bar>H_spec N i dist_i (beta s) - Htarget\<bar> < tol"
    by (simp add: search_pass_def kp Let_def)
  show "psum_of (search_pass N Htarget i dist_i s) = (\<Sum>j<N. kern i dist_i (beta s) j)"
    by (simp add: search_pass_def kp Let_def sums)
qed

lemma search_loop_passes:
  "\<exists>k\<le>cnt. search_loop pass cnt s = (cnt - k, (pass ^^ k) s) \<and>
       (\<forall>m<k. \<not> is_done ((pass ^^ m) s)) \<and> (k < cnt \<longrightarrow> is_done ((pass ^^ k) s))"
proof (induction cnt arbitrary: s)
  case 0
  show ?case by simp
next
  case (Suc cnt)
  show ?case
  proof (cases "is_done s")
    case True
    then show ?thesis by (intro exI[of _ 0]) simp
  next
    case False
    from Suc.IH[of "pass s"] obtain k where k: "k \<le> cnt"
      "search_loop pass cnt (pass s) = (cnt - k, (pass ^^ k) (pass s))"
      "\<forall>m<k. \<not> is_done ((pass ^^ m) (pass s))" "k < cnt \<longrightarrow> is_done ((pass ^^ k) (pass s))"
      by blast
    have "\<forall>m<Suc k. \<not> is_done ((pass ^^ m) s)"
    proof (intro allI impI)
      fix m assume "m < Suc k"
      then show "\<not> is_done ((pass ^^ m) s)"
        using False k(3) by (cases m) (simp_all add: funpow_swap1)
    qed
    with False k show ?thesis
      by (intro exI[of _ "Suc k"]) (simp add: funpow_swap1)
  qed
qed

text \<open>
  Claim C5.  For every row \<open>i < N\<close>, every distance row and every perplexity, the search
  of \<open>init()\<close> makes \<open>k\<close> passes with \<open>1 \<le> k \<le> 50\<close>; every pass takes the logarithm of, and
  divides by, a positive \<open>psum\<close>; no pass before the last has \<open>|H - log(perplexity)| < 1e-4\<close>,
  and when fewer than \<open>50\<close> passes are made the last one has.
\<close>

theorem search_within_budget:
  assumes "i < N"
  shows "\<exists>k. 1 \<le> k \<and> k \<le> 50 \<and>
           search_row N (ln perp) i dist_i prow =
             (maxtries - k, (search_pass N (ln perp) i dist_i ^^ k) (search_start prow)) \<and>
           (\<forall>m<k. 0 < psum_of ((search_pass N (ln perp) i dist_i ^^ Suc m) (search_start prow)) \<and>
                  (m + 1 < k \<longrightarrow>
                     \<not> \<bar>H_spec N i dist_i
                          (beta ((search_pass N (ln perp) i dist_i ^^ m) (search_start prow))) -
                        ln perp\<bar> < 1 / 10 ^ 4)) \<and>
           (k < 50 \<longrightarrow>
              \<bar>H_spec N i dist_i
                 (beta ((search_pass N (ln perp) i dist_i ^^ (k - 1)) (search_start prow))) -
               ln perp\<bar> < 1 / 10 ^ 4)"
proof -
  let ?pass = "search_pass N (ln perp) i dist_i"
  let ?s0 = "search_start prow"
  from search_loop_passes[of maxtries ?pass ?s0] obtain k where k: "k \<le> maxtries"
    "search_loop ?pass maxtries ?s0 = (maxtries - k, (?pass ^^ k) ?s0)"
    "\<forall>m<k. \<not> is_done ((?pass ^^ m) ?s0)" "k < maxtries \<longrightarrow> is_done ((?pass ^^ k) ?s0)"
    by blast
  have nd: "\<not> is_done ?s0" by (simp add: search_start_def)
  have k1: "1 \<le> k"
    using k(4) nd by (cases k) (simp_all add: maxtries_def)
  have done_iff: "is_done ((?pass ^^ Suc m) ?s0) \<longleftrightarrow>
      \<bar>H_spec N i dist_i (beta ((?pass ^^ m) ?s0)) - ln perp\<bar> < 1 / 10 ^ 4" for m
    by (simp add: search_pass_done tol_def)
  have "0 < psum_of ((?pass ^^ Suc m) ?s0)" for m
    using kern_sum_pos[OF assms] by (simp add: search_pass_psum)
  moreover have "\<not> \<bar>H_spec N i dist_i (beta ((?pass ^^ m) ?s0)) - ln perp\<bar> < 1 / 10 ^ 4"
    if "m + 1 < k" for m
    using k(3) that done_iff[of m] by auto
  moreover have "\<bar>H_spec N i dist_i (beta ((?pass ^^ (k - 1)) ?s0)) - ln perp\<bar> < 1 / 10 ^ 4"
    if "k < 50"
    using k(4) that k1 done_iff[of "k - 1"] by (simp add: maxtries_def)
  ultimately show ?thesis
    using k(1,2) k1 unfolding search_row_def
    by (intro exI[of _ k]) (simp add: maxtries_def)
qed

theorem search_within_budget_witness:
  "(0::nat) < 2 \<and>
   (\<exists>k. 1 \<le> k \<and> k \<le> 50 \<and>
      search_row 2 (ln 50) 0 [0, 0] [0, 0] =
        (maxtries - k, (search_pass 2 (ln 50) 0 [0, 0] ^^ k) (search_start [0, 0])) \<and>
      0 < psum_of ((search_pass 2 (ln 50) 0 [0, 0] ^^ Suc 0) (search_start [0, 0])))"
proof -
  have h: "(0::nat) < 2" by simp
  from search_within_budget[OF h, of 50 "[0, 0]" "[0, 0]"] obtain k where
    "1 \<le> k" "k \<le> 50"
    "search_row 2 (ln 50) 0 [0, 0] [0, 0] =
        (maxtries - k, (search_pass 2 (ln 50) 0 [0, 0] ^^ k) (search_start [0, 0]))"
    "\<forall>m<k. 0 < psum_of ((search_pass 2 (ln 50) 0 [0, 0] ^^ Suc m) (search_start [0, 0]))"
    by blast
  then show ?thesis
    using h by (intro conjI exI[of _ k]) auto
qed

section \<open>The second version of src/dimred/TSNE.js\<close>

lemma sum_list_div: "sum_list (map (\<lambda>x. x / c) (map g [0..<N])) = (\<Sum>j<N. g j) / (c::real)"
  by (simp add: sum_list_sum_nth sum_divide_distrib atLeast0LessThan)

lemma affinity_row2_eq:
  assumes "shaped N N P" "i < N"
  shows "shaped N N (affinity_row2 N Htarget Delta i P)"
    and "\<exists>b. affinity_row2 N Htarget Delta i P ! i =
           map (\<lambda>p. p / (\<Sum>j<N. kern i (Delta ! i) b j)) (map (kern i (Delta ! i) b) [0..<N])"
    and "\<And>r. r \<noteq> i \<Longrightarrow> affinity_row2 N Htarget Delta i P ! r = P ! r"
proof -
  have len: "length (P ! i) = N"
    using assms by (simp add: shaped_def list_all_length)
  let ?s = "snd (search_loop (search_pass2 N Htarget i (Delta ! i)) maxtries (search_start (P ! i)))"
  have "row_inv N i (Delta ! i) ?s"
    using search_pass2_inv len by (rule search_loop_first)
  then obtain b where b: "prow_of ?s = map (kern i (Delta ! i) b) [0..<N]"
    "psum_of ?s = (\<Sum>j<N. kern i (Delta ! i) b j)"
    by (auto simp: row_inv_def)
  have row: "affinity_row2 N Htarget Delta i P =
      P[i := map (\<lambda>p. p / psum_of ?s) (prow_of ?s)]"
    unfolding affinity_row2_def Let_def
    by (subst fold_scale) (simp_all add: b)
  show "shaped N N (affinity_row2 N Htarget Delta i P)"
    using assms unfolding row by (auto simp: shaped_def list_all_length nth_list_update b)
  have "affinity_row2 N Htarget Delta i P ! i =
      map (\<lambda>p. p / (\<Sum>j<N. kern i (Delta ! i) b j)) (map (kern i (Delta ! i) b) [0..<N])"
    using assms unfolding row b by (simp add: shaped_def)
  then show "\<exists>b. affinity_row2 N Htarget Delta i P ! i =
           map (\<lambda>p. p / (\<Sum>j<N. kern i (Delta ! i) b j)) (map (kern i (Delta ! i) b) [0..<N])"
    by (rule exI)
  show "\<And>r. r \<noteq> i \<Longrightarrow> affinity_row2 N Htarget Delta i P ! r = P ! r"
    unfolding row by simp
qed

lemma affinities2_eq:
  "shaped N N (affinities2 N Htarget Delta) \<and>
   (\<forall>i<N. \<exists>b. affinities2 N Htarget Delta ! i =
       map (\<lambda>p. p / (\<Sum>j<N. kern i (Delta ! i) b j)) (map (kern i (Delta ! i) b) [0..<N]))"
proof -
  let ?I = "\<lambda>k P. shaped N N P \<and> (\<forall>i<k. \<exists>b. P ! i =
       map (\<lambda>p. p / (\<Sum>j<N. kern i (Delta ! i) b j)) (map (kern i (Delta ! i) b) [0..<N]))"
  have "?I N (fold (affinity_row2 N Htarget Delta) [0..<N] (Matrix N N (\<lambda>_ _. 0)))"
  proof (rule fold_upt_invariant[where I = ?I])
    show "0 \<le> N" by simp
    show "?I 0 (Matrix N N (\<lambda>_ _. 0))" by simp
  next
    fix k P assume k: "k < N" and P: "?I k P"
    show "?I (Suc k) (affinity_row2 N Htarget Delta k P)"
      using affinity_row2_eq[of N P k] P k
      by (auto simp: less_Suc_eq)
  qed
  then show ?thesis by (simp add: affinities2_def)
qed

lemma affinities2_row_sum:
  assumes "i < N"
  shows "sum_list (affinities2 N Htarget Delta ! i) = 1"
proof -
  from affinities2_eq[of N Htarget Delta] assms obtain b where
    "affinities2 N Htarget Delta ! i =
       map (\<lambda>p. p / (\<Sum>j<N. kern i (Delta ! i) b j)) (map (kern i (Delta ! i) b) [0..<N])"
    by blast
  then have "sum_list (affinities2 N Htarget Delta ! i) =
      (\<Sum>j<N. kern i (Delta ! i) b j) / (\<Sum>j<N. kern i (Delta ! i) b j)"
    by (simp only: sum_list_div)
  also have "\<dots> = 1"
    using kern_sum_pos[OF assms, of "Delta ! i" b] by simp
  finally show ?thesis .
qed

lemma symmetrize2_row:
  assumes i: "i < N"
  shows "fold (\<lambda>j P. let p = (P ! i ! j + entry P j i) * c
                      in set_entry (set_entry P i j p) j i p) [i + 1..<N]
           (Matrix N N (\<lambda>r c'. if r \<noteq> c' \<and> (r < i \<or> c' < i) then (e r c' + e c' r) * c else e r c')) =
         Matrix N N (\<lambda>r c'. if r \<noteq> c' \<and> (r < Suc i \<or> c' < Suc i) then (e r c' + e c' r) * c else e r c')"
    (is "fold ?f _ ?s0 = _")
proof -
  let ?I = "\<lambda>k P. P = Matrix N N (\<lambda>r c'.
      if r \<noteq> c' \<and> (r < i \<or> c' < i \<or> (r = i \<and> c' < k) \<or> (c' = i \<and> r < k))
      then (e r c' + e c' r) * c else e r c')"
  have "?I N (fold ?f [i + 1..<N] ?s0)"
  proof (rule fold_upt_invariant[where I = ?I])
    show "i + 1 \<le> N" using i by simp
    show "?I (i + 1) ?s0" by (auto intro!: Matrix_cong)
  next
    fix k P assume k: "i + 1 \<le> k" "k < N" and P: "?I k P"
    show "?I (Suc k) (?f k P)"
      unfolding P using i k
      by (auto simp: Let_def set_entry_Matrix entry_def[symmetric] intro!: Matrix_cong)
  qed
  then show ?thesis
    by (auto intro!: Matrix_cong)
qed

lemma symmetrize2_eq:
  assumes "shaped N N P0"
  shows "symmetrize2 N P0 =
     Matrix N N (\<lambda>r c. if r \<noteq> c then (entry P0 r c + entry P0 c r) * (1 / (real N * 2))
                         else entry P0 r c)"
proof -
  let ?e = "entry P0" and ?c = "1 / (real N * 2)"
  let ?f = "\<lambda>i. fold (\<lambda>j P. let p = (P ! i ! j + entry P j i) * ?c
                      in set_entry (set_entry P i j p) j i p) [i + 1..<N]"
  let ?I = "\<lambda>i P. P = Matrix N N (\<lambda>r c. if r \<noteq> c \<and> (r < i \<or> c < i)
                                         then (?e r c + ?e c r) * ?c else ?e r c)"
  have "?I N (fold ?f [0..<N] P0)"
  proof (rule fold_upt_invariant[where I = ?I])
    show "0 \<le> N" by simp
    show "?I 0 P0" using shaped_eq_Matrix[OF assms] by simp
  next
    fix i P assume i: "i < N" and P: "?I i P"
    show "?I (Suc i) (?f i P)"
      unfolding P by (rule symmetrize2_row[OF i])
  qed
  then show ?thesis
    unfolding symmetrize2_def Let_def by (auto intro!: Matrix_cong)
qed

lemma init2_P:
  "this_P (init2_from Delta t) =
     Some (symmetrize2 (this_N t) (affinities2 (this_N t) (ln (perplexity t)) Delta))"
  by (simp add: init2_from_def Let_def)

lemma init2_ok:
  assumes "input_ok t"
  shows "\<exists>Delta. Delta_of t = Inr Delta \<and> init2 t = Inr (init2_from Delta t)"
  using Delta_of_ok[OF assms] by (auto simp: init2_def)

lemma fold_option_cells:
  "fold (\<lambda>d g. case (g, Some pm) of
                  (Reals g', Some pm') \<Rightarrow> Reals (add_entry g' i d (pm' * (Y ! i ! d - entry Y j d)))
                | _ \<Rightarrow> NaNs) ds (Reals G) =
   Reals (fold (\<lambda>d g. add_entry g i d (pm * (Y ! i ! d - entry Y j d))) ds G)"
  by (induction ds arbitrary: G) simp_all

lemma gradient2_row:
  assumes i: "i < N" and q: "qsum \<noteq> 0"
  shows "fold (\<lambda>j grad.
                 let premult = map_option (\<lambda>q. 4 * (pmul * (P ! i ! j) - q) * (Q ! i ! j))
                                 (js_div (Q ! i ! j) qsum)
                 in fold (\<lambda>d g. case (g, premult) of
                                   (Reals g', Some pm) \<Rightarrow>
                                     Reals (add_entry g' i d (pm * (Y ! i ! d - entry Y j d)))
                                 | _ \<Rightarrow> NaNs)
                      [0..<dm] grad) [0..<N]
           (Reals (Matrix N dm (\<lambda>r c. if r < i then full r c else 0))) =
         Reals (Matrix N dm (\<lambda>r c. if r < i then full r c
                              else if r = i then (\<Sum>j<N. pull pmul P Q qsum Y i j c)
                              else 0))"
    (is "fold ?f _ ?s0 = _")
proof -
  let ?I = "\<lambda>k g. g = Reals (Matrix N dm (\<lambda>r c. if r = i
                 then (\<Sum>j<k. pull pmul P Q qsum Y i j c)
                 else if r < i then full r c else 0))"
  have "?I N (fold ?f [0..<N] ?s0)"
  proof (rule fold_upt_invariant[where I = ?I])
    show "0 \<le> N" by simp
    show "?I 0 ?s0" by (auto intro!: Matrix_cong)
  next
    fix k g assume k: "k < N" and g: "?I k g"
    have "?f k g = Reals (Matrix N dm (\<lambda>r c. if r = i
                 then (\<Sum>j<k. pull pmul P Q qsum Y i j c) +
                      4 * (pmul * (P ! i ! k) - Q ! i ! k / qsum) * (Q ! i ! k) *
                        (entry Y i c - entry Y k c)
                 else if r < i then full r c else 0))"
      unfolding g using q
      by (simp only: Let_def js_div_def if_False option.map fold_option_cells gradient_cell[OF i])
    also have "\<dots> = Reals (Matrix N dm (\<lambda>r c. if r = i
                 then (\<Sum>j<Suc k. pull pmul P Q qsum Y i j c)
                 else if r < i then full r c else 0))"
      by (simp add: pull_def entry_def cong: if_cong)
    finally show "?I (Suc k) (?f k g)" .
  qed
  then show ?thesis by (auto intro!: Matrix_cong)
qed

lemma gradient_loop2_eq:
  assumes "qsum \<noteq> 0"
  shows "gradient_loop2 N dm pmul P Q qsum Y =
     Reals (Matrix N dm (\<lambda>i c. \<Sum>j<N. pull pmul P Q qsum Y i j c))"
proof -
  let ?full = "\<lambda>i c. (\<Sum>j<N. pull pmul P Q qsum Y i j c)"
  let ?f = "\<lambda>i. fold (\<lambda>j grad.
                 let premult = map_option (\<lambda>q. 4 * (pmul * (P ! i ! j) - q) * (Q ! i ! j))
                                 (js_div (Q ! i ! j) qsum)
                 in fold (\<lambda>d g. case (g, premult) of
                                   (Reals g', Some pm) \<Rightarrow>
                                     Reals (add_entry g' i d (pm * (Y ! i ! d - entry Y j d)))
                                 | _ \<Rightarrow> NaNs)
                      [0..<dm] grad) [0..<N]"
  let ?I = "\<lambda>i g. g = Reals (Matrix N dm (\<lambda>r c. if r < i then ?full r c else 0))"
  have "?I N (fold ?f [0..<N] (Reals (Matrix N dm (\<lambda>_ _. 0))))"
  proof (rule fold_upt_invariant[where I = ?I])
    show "0 \<le> N" by simp
    show "?I 0 (Reals (Matrix N dm (\<lambda>_ _. 0)))" by simp
  next
    fix i g assume i: "i < N" and g: "?I i g"
    show "?I (Suc i) (?f i g)"
      unfolding g gradient2_row[OF i assms]
      by (auto simp: less_Suc_eq intro!: Matrix_cong)
  qed
  then show ?thesis
    unfolding gradient_loop2_def by (auto intro!: Matrix_cong)
qed

lemma qsum_spec_pos:
  assumes "2 \<le> N"
  shows "0 < qsum_spec N dm Y"
  unfolding qsum_spec_def
proof (rule sum_pos2[of _ 0])
  show "finite {..<N}" by simp
  show "0 \<in> {..<N}" using assms by simp
  have "(1::nat) \<in> {..<N} - {0}" using assms by simp
  then have "{..<N} - {0::nat} \<noteq> {}" by blast
  then have "0 < (\<Sum>j\<in>{..<N} - {0}. Q_spec dm Y 0 j)"
    by (intro sum_pos) (simp_all add: Q_spec_pos)
  then show "0 < (\<Sum>j\<in>{..<N} - {0}. Q_spec dm Y 0 j)" .
  show "\<And>i. i \<in> {..<N} \<Longrightarrow> 0 \<le> (\<Sum>j\<in>{..<N} - {i}. Q_spec dm Y i j)"
    by (intro sum_nonneg) (simp add: less_imp_le[OF Q_spec_pos])
qed

lemma pull_diagonal:
  "pull pmul P (Matrix N N (\<lambda>r c. if r \<noteq> c then q r c else 0)) qsum Y i i c = 0"
  by (cases "i < N") (simp_all add: pull_def)

lemma gradient2_eq_gradient:
  assumes "N \<noteq> 1"
  shows "gradient2 N dm pmul P Y = Reals (gradient N dm pmul P Y)"
proof (cases "N = 0")
  case True
  then show ?thesis
    by (simp add: gradient2_def gradient_def compute_Q_def gradient_loop2_def gradient_loop_def)
next
  case False
  with assms have N: "2 \<le> N" by simp
  let ?Q = "Matrix N N (\<lambda>r c. if r \<noteq> c then Q_spec dm Y r c else 0)"
  let ?qs = "qsum_spec N dm Y"
  have qs: "?qs \<noteq> 0" using qsum_spec_pos[OF N, of dm Y] by simp
  have "(\<Sum>j<N. pull pmul P ?Q ?qs Y i j c) = (\<Sum>j\<in>{..<N} - {i}. pull pmul P ?Q ?qs Y i j c)"
    for i c
    by (rule sum.mono_neutral_right) (auto simp: pull_diagonal)
  then show ?thesis
    by (simp add: gradient2_def gradient_def compute_Q_spec gradient_loop2_eq[OF qs]
        gradient_loop_eq)
qed

lemma compute_Q_single: "compute_Q (Suc 0) dm Y = (Matrix (Suc 0) (Suc 0) (\<lambda>_ _. 0), 0)"
  by (simp add: compute_Q_def)

lemma fold_NaNs:
  assumes "\<And>d g. f d g = NaNs"
  shows "ds \<noteq> [] \<Longrightarrow> fold f ds g = NaNs"
proof -
  have "fold f ds NaNs = NaNs" for ds
    by (induction ds) (simp_all add: assms)
  then show "ds \<noteq> [] \<Longrightarrow> fold f ds g = NaNs"
    by (cases ds) (simp_all add: assms)
qed

lemma gradient2_single:
  assumes "0 < dm"
  shows "gradient2 (Suc 0) dm pmul P Y = NaNs"
proof -
  have ne: "[0..<dm] \<noteq> []" using assms by simp
  have "gradient_loop2 (Suc 0) dm pmul P Q 0 Y = NaNs" for Q
    apply (simp add: gradient_loop2_def js_div_def)
    apply (rule fold_NaNs[OF _ ne])
    apply (simp split: cells.splits)
    done
  then show ?thesis
    by (simp add: gradient2_def compute_Q_single)
qed

lemma gradient_single: "gradient (Suc 0) dm pmul P Y = Matrix (Suc 0) dm (\<lambda>_ _. 0)"
  unfolding gradient_eq
proof (rule Matrix_cong)
  fix i j :: nat assume "i < Suc 0"
  then have "{..<Suc 0} - {i} = {}" by auto
  then show "(\<Sum>ja\<in>{..<Suc 0} - {i}.
          pull pmul P (fst (compute_Q (Suc 0) dm Y)) (snd (compute_Q (Suc 0) dm Y)) Y i ja j) = 0"
    by (simp only: sum.empty)
qed

lemma center2_eq:
  "center2 N dm (map h [0..<dm]) (Matrix N dm Yf) =
     Matrix N dm (\<lambda>i d. Yf i d - h d / real N)"
proof -
  let ?m = "map h [0..<dm]"
  have row: "fold (\<lambda>d Y. sub_entry Y i d (?m ! d / real N)) [0..<dm]
        (Matrix N dm (\<lambda>r c. if r < i then Yf r c - h c / real N else Yf r c)) =
      Matrix N dm (\<lambda>r c. if r < Suc i then Yf r c - h c / real N else Yf r c)"
    if i: "i < N" for i
  proof -
    let ?I2 = "\<lambda>k Y. Y = Matrix N dm (\<lambda>r c. if r < i \<or> (r = i \<and> c < k)
                                            then Yf r c - h c / real N else Yf r c)"
    have "?I2 dm (fold (\<lambda>d Y. sub_entry Y i d (?m ! d / real N)) [0..<dm]
        (Matrix N dm (\<lambda>r c. if r < i then Yf r c - h c / real N else Yf r c)))"
    proof (rule fold_upt_invariant[where I = ?I2])
      show "0 \<le> dm" by simp
      show "?I2 0 (Matrix N dm (\<lambda>r c. if r < i then Yf r c - h c / real N else Yf r c))"
        by (auto intro!: Matrix_cong)
    next
      fix k Y assume k: "k < dm" and Y: "?I2 k Y"
      show "?I2 (Suc k) (sub_entry Y i k (?m ! k / real N))"
        unfolding Y using i k
        by (auto simp: sub_entry_Matrix intro!: Matrix_cong)
    qed
    then show ?thesis
      by (auto intro!: Matrix_cong)
  qed
  let ?I3 = "\<lambda>i Y. Y = Matrix N dm (\<lambda>r c. if r < i then Yf r c - h c / real N else Yf r c)"
  have "?I3 N (fold (\<lambda>i. fold (\<lambda>d Y. sub_entry Y i d (?m ! d / real N)) [0..<dm]) [0..<N] (Matrix N dm Yf))"
  proof (rule fold_upt_invariant[where I = ?I3])
    show "0 \<le> N" by simp
    show "?I3 0 (Matrix N dm Yf)" by simp
  next
    fix i Y assume i: "i < N" and Y: "?I3 i Y"
    show "?I3 (Suc i) (fold (\<lambda>d Y. sub_entry Y i d (?m ! d / real N)) [0..<dm] Y)"
      unfolding Y row[OF i] ..
  qed
  then show ?thesis
    unfolding center2_def by (auto intro!: Matrix_cong)
qed

lemma next2_with_eq:
  assumes "0 < par_d t" "1 < this_N t"
    and "this_Y t = Some (Reals Y)" "this_ystep t = Some (Reals ystep)"
    and "this_gains t = Some gains" "this_P t = Some P"
    and "shaped (this_N t) (par_d t) Y" "shaped (this_N t) (par_d t) ystep"
    and "shaped (this_N t) (par_d t) gains"
  shows "next2_with iter pmul momval t =
     Inr (t\<lparr>this_iter := iter,
            this_gains := Some (Matrix (this_N t) (par_d t)
               (gain' newgain_of (gradient (this_N t) (par_d t) pmul P Y) gains ystep)),
            this_ystep := Some (Reals (Matrix (this_N t) (par_d t)
               (ystep' newgain_of momval (epsilon t) (gradient (this_N t) (par_d t) pmul P Y) gains ystep))),
            this_Y := Some (Reals (Matrix (this_N t) (par_d t)
               (stepped_Y newgain_of (this_N t) momval (epsilon t)
                  (gradient (this_N t) (par_d t) pmul P Y) gains ystep Y)))\<rparr>)"
proof -
  have N: "this_N t \<noteq> 1" using assms(2) by simp
  show ?thesis
    unfolding next2_with_def
    using assms(1,2) by (simp add: assms(3-6) Let_def gradient2_eq_gradient[OF N]
        descend_eq[OF assms(9,8,7)] center2_eq stepped_Y_fun)
qed

lemma ready2_next2:
  assumes "ready2 t"
  shows "\<exists>t'. next2 t = Inr t' \<and> ready2 t' \<and> this_P t' = this_P t \<and>
           this_N t' = this_N t \<and> this_iter t' = this_iter t + 1"
  using assms unfolding ready2_def next2_def next2_with_def Let_def
  by (auto split: prod.splits cells.splits)

lemma ready2_steps:
  assumes "ready2 t"
  shows "\<exists>t'. steps next2 k t = Inr t' \<and> ready2 t' \<and> this_P t' = this_P t \<and>
           this_N t' = this_N t \<and> this_iter t' = this_iter t + k"
  using assms
proof (induction k arbitrary: t)
  case 0
  then show ?case by simp
next
  case (Suc k)
  from ready2_next2[OF Suc.prems] obtain t1 where t1: "next2 t = Inr t1" "ready2 t1"
    "this_P t1 = this_P t" "this_N t1 = this_N t" "this_iter t1 = this_iter t + 1"
    by blast
  from Suc.IH[OF t1(2)] show ?case
    using t1 by auto
qed

lemma init2_fields [simp]:
  "this_N (init2_from Delta t) = this_N t"
  "par_d (init2_from Delta t) = par_d t"
  "this_iter (init2_from Delta t) = this_iter t"
  "epsilon (init2_from Delta t) = epsilon t"
  "this_gains (init2_from Delta t) = Some (Matrix (this_N t) (par_d t) (\<lambda>_ _. 1))"
  "this_ystep (init2_from Delta t) = Some (Reals (Matrix (this_N t) (par_d t) (\<lambda>_ _. 0)))"
  "this_Y (init2_from Delta t) = Some (Reals (fresh_Y t))"
  by (simp_all add: init2_from_def Let_def)

lemma ready_init2: "0 < par_d t \<Longrightarrow> ready2 (init2_from Delta t)"
  by (simp add: ready2_def init2_P)

lemma compute_Q_diag:
  assumes "2 \<le> N" "i < N"
  shows "entry (fst (compute_Q N dm Y)) i i = 0" "0 < snd (compute_Q N dm Y)"
  using assms qsum_spec_pos[OF assms(1), of dm Y] by (simp_all add: compute_Q_spec)

subsection \<open>The guard of the gradient loop\<close>

text \<open>
  With a number of points other than one the unguarded loop of the second version computes
  the gradient of the guarded loop: \<open>Q\<close> has a zero diagonal and \<open>qsum\<close> is positive, so the
  term \<open>j = i\<close> is zero.
\<close>

theorem guard_redundant:
  assumes "N \<noteq> 1"
  shows "gradient2 N dm pmul P Y = Reals (gradient N dm pmul P Y) \<and>
         (\<forall>i<N. entry (fst (compute_Q N dm Y)) i i = 0 \<and> 0 < snd (compute_Q N dm Y))"
proof
  show "gradient2 N dm pmul P Y = Reals (gradient N dm pmul P Y)"
    by (rule gradient2_eq_gradient[OF assms])
  show "\<forall>i<N. entry (fst (compute_Q N dm Y)) i i = 0 \<and> 0 < snd (compute_Q N dm Y)"
  proof (intro allI impI)
    fix i assume i: "i < N"
    with assms have "2 \<le> N" by simp
    from compute_Q_diag[OF this i]
    show "entry (fst (compute_Q N dm Y)) i i = 0 \<and> 0 < snd (compute_Q N dm Y)"
      by simp
  qed
qed

theorem guard_redundant_two_points:
  "(2::nat) \<noteq> 1 \<and>
   gradient2 2 1 4 [[0, 1 / 2], [1 / 2, 0]] [[0], [1]] =
     Reals (gradient 2 1 4 [[0, 1 / 2], [1 / 2, 0]] [[0], [1]]) \<and>
   entry (fst (compute_Q 2 1 [[0], [1]])) 1 1 = 0 \<and> 0 < snd (compute_Q 2 1 [[0], [1]])"
proof -
  have h: "(2::nat) \<noteq> 1" by simp
  from guard_redundant[OF h, of 1 4 "[[0, 1 / 2], [1 / 2, 0]]" "[[0], [1]]"]
  have a: "gradient2 2 1 4 [[0, 1 / 2], [1 / 2, 0]] [[0], [1]] =
      Reals (gradient 2 1 4 [[0, 1 / 2], [1 / 2, 0]] [[0], [1]])"
    and b: "\<forall>i<2. entry (fst (compute_Q 2 1 [[0], [1]])) i i = 0 \<and>
                 0 < snd (compute_Q 2 1 [[0], [1]])"
    by blast+
  from b have "entry (fst (compute_Q 2 1 [[0], [1]])) 1 1 = 0 \<and> 0 < snd (compute_Q 2 1 [[0], [1]])"
    by (rule allE[of _ 1]) simp
  with h a show ?thesis by blast
qed

lemma init2_precomputed:
  assumes "has_storage X \<or> X = []"
  shows "init2 (TSNE X perp eps dm Precomputed g) =
           Inr (init2_from X (TSNE X perp eps dm Precomputed g))"
  using assms by (auto simp: init2_def Delta_of_def)

lemma affinities2_single: "affinities2 (Suc 0) Htarget [[0]] = [[1]]"
proof -
  from affinities2_eq[of "Suc 0" Htarget "[[0]]"] obtain b where
    "affinities2 (Suc 0) Htarget [[0]] ! 0 =
       map (\<lambda>j. kern 0 ([[0]] ! 0) b j / (\<Sum>k<Suc 0. kern 0 ([[0]] ! 0) b k)) [0..<Suc 0]"
    and "shaped (Suc 0) (Suc 0) (affinities2 (Suc 0) Htarget [[0]])"
    by auto
  then show ?thesis
    by (cases "affinities2 (Suc 0) Htarget [[0]]") (simp_all add: shaped_def kern_def)
qed

lemma next2_single:
  assumes "this_N t = 1" "0 < par_d t"
    and "this_Y t = Some cY" "this_ystep t = Some cV" "this_gains t = Some G" "this_P t = Some P"
  shows "next2 t = Inr (t\<lparr>this_iter := this_iter t + 1,
                          this_gains := Some (decay_gains 1 (par_d t) G),
                          this_ystep := Some NaNs, this_Y := Some NaNs\<rparr>)"
  unfolding next2_def next2_with_def Let_def
  using assms(2) by (simp add: assms(1,3-6) gradient2_single split: cells.splits)

text \<open>
  Claim C10.  One point at distance \<open>0\<close> from itself, one output dimension, the Gaussian value
  \<open>0\<close>: \<open>init()\<close> of the second version leaves \<open>P = [[1]]\<close> and \<open>Y = [[0]]\<close>.  \<open>Q\<close> is the zero
  matrix and \<open>qsum\<close> is \<open>0\<close>, so the unguarded loop divides \<open>0\<close> by \<open>0\<close> in the term \<open>j = i\<close>: its
  gradient is \<open>NaN\<close>, where the guarded loop visits no pair and leaves the gradient \<open>0\<close>.  The
  first call of \<open>next()\<close> returns with \<open>NaN\<close> in \<open>Y\<close> and in the velocity.
\<close>

theorem unguarded_loop_single_point:
  "gradient2 1 1 (pmul_of 1) [[1]] [[0]] = NaNs \<and>
   gradient 1 1 (pmul_of 1) [[1]] [[0]] = [[0]] \<and>
   (\<exists>t0 t'. init2 (TSNE [[0]] 50 10 1 Precomputed real) = Inr t0 \<and>
      this_P t0 = Some [[1]] \<and> this_Y t0 = Some (Reals [[0]]) \<and>
      next2 t0 = Inr t' \<and> this_Y t' = Some NaNs \<and> this_ystep t' = Some NaNs \<and>
      this_P t' = Some [[1]])"
proof -
  let ?c = "TSNE [[0]] 50 10 1 Precomputed real :: tsne2"
  let ?t0 = "init2_from [[0]] ?c"
  have "gradient2 1 1 (pmul_of 1) [[1]] [[0]] = NaNs"
    using gradient2_single[of 1] by simp
  moreover have "gradient 1 1 (pmul_of 1) [[1]] [[0]] = [[0]]"
    using gradient_single[of 1] by (simp add: Matrix_def)
  moreover have i0: "init2 ?c = Inr ?t0"
    by (rule init2_precomputed) (simp add: has_storage_def)
  moreover have P: "this_P ?t0 = Some [[1]]"
    by (simp add: init2_P affinities2_single symmetrize2_def)
  moreover have Y: "this_Y ?t0 = Some (Reals [[0]])"
    by (simp add: fresh_Y_def Matrix_def)
  moreover have "\<exists>t'. next2 ?t0 = Inr t' \<and> this_Y t' = Some NaNs \<and> this_ystep t' = Some NaNs \<and>
      this_P t' = Some [[1]]"
    using P by (subst next2_single[where t = ?t0]) simp_all
  ultimately show ?thesis by blast
qed

lemma affinities_row_sum:
  "i < N \<Longrightarrow> sum_list (affinities N Htarget Delta ! i) = 1 / (2 * real N)"
  using affinities_eq[of N Htarget Delta] by simp

lemma Delta_of_TSNE:
  "Delta_of (TSNE X perp eps dm m g) =
     (case m of Precomputed \<Rightarrow> Inr X | Metric f \<Rightarrow> distance_matrix X f)"
  by (simp add: Delta_of_def split: metric.splits)

subsection \<open>The rows of \<open>P\<close> before the symmetrization\<close>

text \<open>
  Claim C6, amended.  On a well-formed input both versions of \<open>init()\<close> return.  Between
  the row loop and the symmetrization, every row of \<open>P\<close> sums to \<open>1\<close> in the second version
  and to \<open>1 / (2 N)\<close> in the first, whose row normalization \<open>N2 = 1 / (2 N psum)\<close> already
  holds the factor of the symmetrization.
\<close>

theorem row_sums_before_symmetrization:
  assumes "well_formed X perp dm m" and "i < length X"
  shows "\<exists>Delta t0 t2.
           Delta_of (TSNE X perp eps dm m g :: tsne) = Inr Delta \<and>
           init (TSNE X perp eps dm m g) = Inr t0 \<and>
           this_P t0 = Some (symmetrize (length X) (affinities (length X) (ln perp) Delta)) \<and>
           sum_list (affinities (length X) (ln perp) Delta ! i) = 1 / (2 * real (length X)) \<and>
           init2 (TSNE X perp eps dm m g) = Inr t2 \<and>
           this_P t2 = Some (symmetrize2 (length X) (affinities2 (length X) (ln perp) Delta)) \<and>
           sum_list (affinities2 (length X) (ln perp) Delta ! i) = 1"
proof -
  from init_ok[of "TSNE X perp eps dm m g"] assms(1) obtain Delta where
    d: "Delta_of (TSNE X perp eps dm m g :: tsne) = Inr Delta"
    and i0: "init (TSNE X perp eps dm m g) = Inr (init_from Delta (TSNE X perp eps dm m g))"
    by auto
  from init2_ok[of "TSNE X perp eps dm m g"] assms(1) obtain Delta2 where
    d2: "Delta_of (TSNE X perp eps dm m g :: tsne2) = Inr Delta2"
    and i2: "init2 (TSNE X perp eps dm m g) = Inr (init2_from Delta2 (TSNE X perp eps dm m g))"
    by auto
  from d d2 have "Delta2 = Delta"
    by (simp add: Delta_of_TSNE)
  with d i0 i2 show ?thesis
    using assms(2) by (simp add: init_P init2_P affinities_row_sum affinities2_row_sum)
qed

theorem row_sums_before_symmetrization_witness:
  "well_formed [[0, 1], [1, 0]] 50 2 Precomputed \<and>
   (0::nat) < length [[0, 1], [1, 0::real]] \<and>
   (\<exists>t0 t2.
      init (TSNE [[0, 1], [1, 0]] 50 10 2 Precomputed real) = Inr t0 \<and>
      this_P t0 = Some (symmetrize 2 (affinities 2 (ln 50) [[0, 1], [1, 0]])) \<and>
      sum_list (affinities 2 (ln 50) [[0, 1], [1, 0]] ! 0) = 1 / 4 \<and>
      init2 (TSNE [[0, 1], [1, 0]] 50 10 2 Precomputed real) = Inr t2 \<and>
      this_P t2 = Some (symmetrize2 2 (affinities2 2 (ln 50) [[0, 1], [1, 0]])) \<and>
      sum_list (affinities2 2 (ln 50) [[0, 1], [1, 0]] ! 0) = 1)"
proof -
  have wf: "well_formed [[0, 1], [1, 0]] 50 2 Precomputed"
    by (simp add: well_formed_def shaped_def)
  have h: "(0::nat) < length [[0, 1], [1, 0::real]]"
    by simp
  from row_sums_before_symmetrization[OF wf h, of 10 real] show ?thesis
    using wf by (auto simp: Delta_of_TSNE numeral_2_eq_2)
qed

text \<open>
  Two points at distance \<open>1\<close>: after the row loop of the first version the row \<open>0\<close> sums to
  \<open>1 / 4\<close>.
\<close>

theorem row_sums_before_symmetrization_counterexample:
  "sum_list (affinities 2 (ln 50) [[0, 1], [1, 0]] ! 0) = 1 / 4"
  using affinities_row_sum[of 0 2 "ln 50" "[[0, 1], [1, 0]]"] by simp

lemma init_P_props:
  assumes "0 < this_N t"
  shows "\<exists>P. this_P (init_from Delta t) = Some P \<and> shaped (this_N t) (this_N t) P \<and>
            (\<forall>i<this_N t. \<forall>j<this_N t. entry P i j = entry P j i) \<and>
            sum_entries (this_N t) (this_N t) P = 1"
proof -
  let ?N = "this_N t"
  let ?A = "affinities ?N (ln (perplexity t)) Delta"
  have sh: "shaped ?N ?N ?A" using affinities_eq[of ?N] by simp
  have "sum_entries ?N ?N (symmetrize ?N ?A) = 1"
    using total_symmetrize[OF sh] total_affinities[OF assms] by simp
  moreover have "\<forall>i<?N. \<forall>j<?N. entry (symmetrize ?N ?A) i j = entry (symmetrize ?N ?A) j i"
    by (simp add: symmetrize_eq[OF sh])
  moreover have "shaped ?N ?N (symmetrize ?N ?A)"
    by (simp add: symmetrize_eq[OF sh])
  ultimately show ?thesis
    by (simp add: init_P)
qed

lemma init2_P_props:
  "\<exists>P. this_P (init2_from Delta t) = Some P \<and>
      (\<forall>i<this_N t. \<forall>j<this_N t. entry P i j = entry P j i \<and>
          (i \<noteq> j \<longrightarrow> entry P i j =
             (entry (affinities2 (this_N t) (ln (perplexity t)) Delta) i j +
              entry (affinities2 (this_N t) (ln (perplexity t)) Delta) j i) /
             (2 * real (this_N t))))"
proof -
  let ?N = "this_N t"
  let ?A = "affinities2 ?N (ln (perplexity t)) Delta"
  have sh: "shaped ?N ?N ?A" using affinities2_eq[of ?N] by simp
  show ?thesis
    by (simp add: init2_P symmetrize2_eq[OF sh] add.commute mult.commute)
qed

lemma steps_P_kept:
  assumes "ready t"
  shows "\<exists>t'. steps next k t = Inr t' \<and> this_P t' = this_P t"
  using ready_steps[OF assms, of k] by blast

lemma steps2_P_kept:
  assumes "ready2 t"
  shows "\<exists>t'. steps next2 k t = Inr t' \<and> this_P t' = this_P t"
  using ready2_steps[OF assms, of k] by blast

section \<open>The version of src/src/dimred/TSNE.js\<close>

lemma same_config_refl [simp]: "same_config t t"
  by (simp add: same_config_def)

lemma same_config_input_ok: "same_config t t' \<Longrightarrow> input_ok t \<Longrightarrow> input_ok t'"
  by (simp add: same_config_def input_ok_def)

lemma same_config_Delta_of: "same_config t t' \<Longrightarrow> Delta_of t' = Delta_of t"
  by (simp add: same_config_def Delta_of_def cong: metric.case_cong)

lemma same_config_trans: "same_config t t1 \<Longrightarrow> same_config t1 t2 \<Longrightarrow> same_config t t2"
  by (simp add: same_config_def)

lemma next_with_setup:
  "next_with iter pmul momval t = Inr t' \<Longrightarrow> same_config t t' \<and> this_iter t' = iter"
  by (auto simp: next_with_def same_config_def Let_def split: option.splits if_splits prod.splits)

lemma next_setup: "next t = Inr t' \<Longrightarrow> same_config t t' \<and> this_iter t' = this_iter t + 1"
  unfolding next_def Let_def by (rule next_with_setup)

lemma next3_with_setup:
  "next3_with iter pmul momval t = Inr t' \<Longrightarrow> same_config t t' \<and> this_iter t' = iter"
  by (auto simp: next3_with_def same_config_def Let_def split: option.splits if_splits prod.splits)

lemma next3_setup: "next3 t = Inr t' \<Longrightarrow> same_config t t' \<and> this_iter t' = this_iter t + 1"
  unfolding next3_def Let_def by (rule next3_with_setup)

lemma steps_setup:
  assumes "\<And>t t'. nxt t = Inr t' \<Longrightarrow> same_config t t' \<and> this_iter t' = this_iter t + 1"
  shows "steps nxt k t = Inr t' \<Longrightarrow> same_config t t' \<and> this_iter t' = this_iter t + k"
proof (induction k arbitrary: t)
  case 0
  then show ?case by simp
next
  case (Suc k)
  from Suc.prems obtain t1 where t1: "nxt t = Inr t1" "steps nxt k t1 = Inr t'"
    by (auto split: sum.splits)
  from assms[OF t1(1)] Suc.IH[OF t1(2)] show ?case
    by (auto intro: same_config_trans)
qed

lemma gradient3_with_eq:
  assumes "shaped N dm grad0"
  shows "gradient3_with pmul N dm P grad0 Y =
     Matrix N dm (\<lambda>i c. entry grad0 i c + (\<Sum>j\<in>{..<N} - {i}.
        pull pmul P (fst (compute_Q3 N Y)) (snd (compute_Q3 N Y)) Y i j c))"
  unfolding gradient3_with_def split_beta
  by (subst shaped_eq_Matrix[OF assms]) (simp only: gradient_loop_eq)

lemma ready3_fields:
  assumes "ready3 t"
  obtains Y ystep gains grad P where
    "this_Y t = Some Y" "this_ystep t = Some ystep" "this_gains t = Some gains"
    "this_grad t = Some grad" "this_P t = Some P"
    "shaped (this_N t) (par_d t) Y" "shaped (this_N t) (par_d t) ystep"
    "shaped (this_N t) (par_d t) gains" "shaped (this_N t) (par_d t) grad" "0 < par_d t"
  using assms unfolding ready3_def by (auto split: option.splits)

lemma next3_with_eq:
  assumes "ready3 t"
    and "this_Y t = Some Y" "this_ystep t = Some ystep" "this_gains t = Some gains"
    and "this_grad t = Some grad0" "this_P t = Some P"
  shows "next3_with iter pmul momval t =
     Inr (t\<lparr>this_iter := iter,
            this_grad := Some (gradient3_with pmul (this_N t) (par_d t) P grad0 Y),
            this_gains := Some (Matrix (this_N t) (par_d t)
               (gain' newgain3_of (gradient3_with pmul (this_N t) (par_d t) P grad0 Y) gains ystep)),
            this_ystep := Some (Matrix (this_N t) (par_d t)
               (ystep' newgain3_of momval (epsilon t)
                  (gradient3_with pmul (this_N t) (par_d t) P grad0 Y) gains ystep)),
            this_Y := Some (Matrix (this_N t) (par_d t)
               (stepped_Y newgain3_of (this_N t) momval (epsilon t)
                  (gradient3_with pmul (this_N t) (par_d t) P grad0 Y) gains ystep Y))\<rparr>)"
proof -
  from assms have sh: "shaped (this_N t) (par_d t) Y" "shaped (this_N t) (par_d t) ystep"
    "shaped (this_N t) (par_d t) gains" and d: "0 < par_d t"
    by (auto simp: ready3_def)
  show ?thesis
    unfolding next3_with_def
    using d by (simp add: assms(2-6) Let_def descend_eq[OF sh(3,2,1)] center_eq stepped_Y_fun)
qed

lemma ready3_next3:
  assumes "ready3 t"
  shows "\<exists>t'. next3 t = Inr t' \<and> ready3 t'"
proof -
  from assms obtain Y ystep gains grad P where f:
    "this_Y t = Some Y" "this_ystep t = Some ystep" "this_gains t = Some gains"
    "this_grad t = Some grad" "this_P t = Some P"
    and sh: "shaped (this_N t) (par_d t) grad" and d: "0 < par_d t"
    by (rule ready3_fields)
  show ?thesis
    unfolding next3_def Let_def next3_with_eq[OF assms f]
    using f d by (simp add: ready3_def gradient3_with_eq[OF sh])
qed

lemma ready3_steps:
  assumes "ready3 t"
  shows "\<exists>t'. steps next3 k t = Inr t' \<and> ready3 t'"
  using assms
proof (induction k arbitrary: t)
  case 0
  then show ?case by simp
next
  case (Suc k)
  from ready3_next3[OF Suc.prems] obtain t1 where "next3 t = Inr t1" "ready3 t1"
    by blast
  with Suc.IH[of t1] show ?case by simp
qed

lemma TSNE3_fields [simp]:
  "this_N (TSNE3 X perp eps dm m g) = length X"
  "par_d (TSNE3 X perp eps dm m g) = dm"
  "this_iter (TSNE3 X perp eps dm m g) = 0"
  "epsilon (TSNE3 X perp eps dm m g) = eps"
  "perplexity (TSNE3 X perp eps dm m g) = perp"
  "this_X (TSNE3 X perp eps dm m g) = X"
  "par_metric (TSNE3 X perp eps dm m g) = m"
  "this_Y (TSNE3 X perp eps dm m g) = Some (Matrix (length X) dm (\<lambda>row col. g (row * dm + col) * (1 / 10 ^ 4)))"
  "this_ystep (TSNE3 X perp eps dm m g) = Some (Matrix (length X) dm (\<lambda>_ _. 0))"
  "this_gains (TSNE3 X perp eps dm m g) = Some (Matrix (length X) dm (\<lambda>_ _. 1))"
  "this_grad (TSNE3 X perp eps dm m g) = Some (Matrix (length X) dm (\<lambda>_ _. 0))"
  "this_P (TSNE3 X perp eps dm m g) = None"
  by (simp_all add: TSNE3_def TSNE_def Let_def fresh_Y_def)

lemma init3_fields [simp]:
  "this_N (init3_from Delta t) = this_N t"
  "par_d (init3_from Delta t) = par_d t"
  "this_iter (init3_from Delta t) = this_iter t"
  "epsilon (init3_from Delta t) = epsilon t"
  "this_gains (init3_from Delta t) = this_gains t"
  "this_ystep (init3_from Delta t) = this_ystep t"
  "this_Y (init3_from Delta t) = this_Y t"
  "this_grad (init3_from Delta t) = this_grad t"
  "this_P (init3_from Delta t) \<noteq> None"
  by (simp_all add: init3_from_def Let_def)

lemma ready3_init3: "0 < dm \<Longrightarrow> ready3 (init3_from Delta (TSNE3 X perp eps dm m g))"
  by (simp add: ready3_def)

lemma init3_ok:
  assumes "input_ok t"
  shows "\<exists>Delta. Delta_of t = Inr Delta \<and> init3 t = Inr (init3_from Delta t)"
  using Delta_of_ok[OF assms] by (auto simp: init3_def)

lemma input_ok_TSNE3 [simp]:
  "input_ok (TSNE3 X perp eps dm m g) \<longleftrightarrow> well_formed X perp dm m"
  by (simp add: input_ok_def TSNE3_def TSNE_def Let_def)

lemma input_ok_init_from [simp]: "input_ok (init_from Delta t) \<longleftrightarrow> input_ok t"
  by (simp add: input_ok_def init_from_def Let_def)

lemma input_ok_init3_from [simp]: "input_ok (init3_from Delta t) \<longleftrightarrow> input_ok t"
  by (simp add: input_ok_def init3_from_def Let_def)

lemma reinit3_same:
  assumes "same_config (init3_from Delta t0) t"
    and "Delta_of t0 = Inr Delta" and "init3 t0 = Inr (init3_from Delta t0)"
  shows "init3 t = Inr t"
proof -
  have D: "Delta_of t = Delta_of t0"
    using assms(1) by (simp add: same_config_def init3_from_def Let_def Delta_of_def
        cong: metric.case_cong)
  have N: "this_N t = this_N t0"
    using assms(1) by (simp add: same_config_def)
  have "this_P (init3_from Delta t) = this_P t"
    using assms(1) by (simp add: same_config_def init3_from_def Let_def)
  then have "init3_from Delta t = t"
    by (simp add: init3_from_def Let_def)
  moreover have "init3 t = Inr (init3_from Delta t)"
    using assms(3) unfolding init3_def D N assms(2)
    by (auto split: if_splits)
  ultimately show ?thesis by simp
qed

lemma run_iter:
  assumes "steps next k t0 = Inr t"
  shows "this_iter t = this_iter t0 + k" "same_config t0 t"
  using steps_setup[of "next", OF next_setup assms] by simp_all

lemma run3_iter:
  assumes "steps next3 k t0 = Inr t"
  shows "this_iter t = this_iter t0 + k" "same_config t0 t"
  using steps_setup[of next3, OF next3_setup assms] by simp_all

lemma run3_state:
  assumes "well_formed X perp dm m"
    and "init3 (TSNE3 X perp eps dm m g) = Inr t0"
    and "steps next3 k t0 = Inr t"
  shows "ready3 t" "this_N t = length X" "par_d t = dm" "this_iter t = k" "epsilon t = eps"
    "this_P t = this_P t0" "ready3 t0"
proof -
  from init3_ok[of "TSNE3 X perp eps dm m g"] assms(1,2) obtain Delta where
    t0: "t0 = init3_from Delta (TSNE3 X perp eps dm m g)"
    by auto
  show r0: "ready3 t0"
    unfolding t0 using assms(1) by (intro ready3_init3) (simp add: well_formed_def)
  from ready3_steps[OF r0, of k] assms(3)
  show "ready3 t" by auto
  from run3_iter[OF assms(3)]
  show "this_N t = length X" "par_d t = dm" "this_iter t = k" "epsilon t = eps"
    "this_P t = this_P t0"
    by (simp_all add: same_config_def t0)
qed

lemma sgn3_eq_iff: "sgn3 x = sgn3 y \<longleftrightarrow> sgn x = sgn y"
  by (auto simp: sgn3_def sgn_if)

lemma newgain3_of_sgn:
  "newgain3_of gid sid gain = max (if sgn gid = sgn sid then gain * 0.8 else gain + 0.2) 0.01"
  by (simp add: newgain3_of_def sgn3_eq_iff)

lemma next3_velocity:
  assumes "ready3 t"
    and "this_Y t = Some Y" "this_ystep t = Some V" "this_gains t = Some G"
    and "this_grad t = Some grad0" "this_P t = Some P"
  shows "\<exists>t' V' G' Y'. next3 t = Inr t' \<and> this_ystep t' = Some V' \<and> this_gains t' = Some G' \<and>
           this_Y t' = Some Y' \<and>
           (\<forall>i<this_N t. \<forall>d<par_d t.
              entry G' i d = newgain3_of
                 (entry (gradient3_with (pmul_of (this_iter t + 1)) (this_N t) (par_d t) P grad0 Y) i d)
                 (entry V i d) (entry G i d) \<and>
              entry V' i d = momval_of (this_iter t + 1) * entry V i d -
                 epsilon t * entry G' i d *
                 entry (gradient3_with (pmul_of (this_iter t + 1)) (this_N t) (par_d t) P grad0 Y) i d \<and>
              entry Y' i d = entry Y i d + entry V' i d -
                 (\<Sum>r<this_N t. entry Y r d + entry V' r d) / real (this_N t))"
  unfolding next3_def Let_def next3_with_eq[OF assms]
  by (simp add: gain'_def ystep'_def moved_def stepped_Y_def)



lemma init3_precomputed:
  assumes "has_storage X \<or> X = []"
  shows "init3 (TSNE3 X perp eps dm Precomputed g) =
           Inr (init3_from X (TSNE3 X perp eps dm Precomputed g))"
  using assms by (auto simp: init3_def Delta_of_def)

subsection \<open>The schedule of the exaggeration\<close>



lemma Delta_of_init_from [simp]: "Delta_of (init_from Delta t) = Delta_of t"
  by (simp add: Delta_of_def init_from_def Let_def cong: metric.case_cong)

lemma reinit_same_P:
  assumes "same_config (init_from Delta t0) t"
    and "Delta_of t0 = Inr Delta" and "init t0 = Inr (init_from Delta t0)"
  shows "init t = Inr (init_from Delta t)" "this_P (init_from Delta t) = this_P t"
proof -
  have D: "Delta_of t = Delta_of t0"
    using same_config_Delta_of[OF assms(1)] by simp
  have N: "this_N t = this_N t0"
    using assms(1) by (simp add: same_config_def)
  show "init t = Inr (init_from Delta t)"
    using assms(3) unfolding init_def D N assms(2)
    by (auto split: if_splits)
  show "this_P (init_from Delta t) = this_P t"
    using assms(1) by (simp add: same_config_def init_from_def Let_def)
qed

subsection \<open>A second \<open>init()\<close>\<close>

text \<open>
  Claim C9, amended.  In src/dimred/TSNE.js a second \<open>init()\<close>, after \<open>k\<close> calls of \<open>next()\<close>,
  computes the same \<open>P\<close> again, fills \<open>Y\<close> with the next \<open>N \<cdot> d\<close> values of the Gaussian
  sequence scaled by \<open>1e-4\<close>, the velocity with zeros and the gains with ones, and leaves the
  iteration counter at \<open>k\<close>: exaggeration and momentum go on from the calls already made.
  In src/src/dimred/TSNE.js, where the constructor allocates the optimizer state, a second
  \<open>init()\<close> computes the same \<open>P\<close> again and changes nothing.
\<close>

theorem init_again:
  assumes "well_formed X perp dm m"
    and "init (TSNE X perp eps dm m g) = Inr t0" and "steps next k t0 = Inr t"
    and "init3 (TSNE3 X perp eps dm m g) = Inr t03" and "steps next3 k t03 = Inr t3"
  shows "(\<exists>t1. init t = Inr t1 \<and>
            this_P t1 = this_P t \<and>
            this_Y t1 = Some (Matrix (length X) dm
               (\<lambda>row col. g (length X * dm + row * dm + col) * (1 / 10 ^ 4))) \<and>
            this_ystep t1 = Some (Matrix (length X) dm (\<lambda>_ _. 0)) \<and>
            this_gains t1 = Some (Matrix (length X) dm (\<lambda>_ _. 1)) \<and>
            this_iter t1 = k) \<and>
         init3 t3 = Inr t3"
proof
  let ?c = "TSNE X perp eps dm m g :: tsne"
  from init_ok[of ?c] assms(1,2) obtain Delta where
    D: "Delta_of ?c = Inr Delta" and i0: "init ?c = Inr (init_from Delta ?c)"
    and t0: "t0 = init_from Delta ?c"
    by auto
  note a = run_iter[OF assms(3)]
  have cfg: "this_N t = length X" "par_d t = dm" "gauss t = g" "rng t = length X * dm"
    using a(2) by (simp_all add: same_config_def t0 init_from_def Let_def)
  have same: "same_config (init_from Delta ?c) t"
    using a(2) by (simp add: t0)
  note re = reinit_same_P[OF same D i0]
  have "this_iter (init_from Delta t) = k"
    using a(1) by (simp add: t0)
  with re show "\<exists>t1. init t = Inr t1 \<and>
            this_P t1 = this_P t \<and>
            this_Y t1 = Some (Matrix (length X) dm
               (\<lambda>row col. g (length X * dm + row * dm + col) * (1 / 10 ^ 4))) \<and>
            this_ystep t1 = Some (Matrix (length X) dm (\<lambda>_ _. 0)) \<and>
            this_gains t1 = Some (Matrix (length X) dm (\<lambda>_ _. 1)) \<and>
            this_iter t1 = k"
    by (simp add: cfg fresh_Y_def)
next
  let ?c3 = "TSNE3 X perp eps dm m g"
  from init3_ok[of ?c3] assms(1,4) obtain Delta where
    D: "Delta_of ?c3 = Inr Delta" and i3: "init3 ?c3 = Inr (init3_from Delta ?c3)"
    and t03: "t03 = init3_from Delta ?c3"
    by auto
  have same: "same_config (init3_from Delta ?c3) t3"
    using run3_iter(2)[OF assms(5)] by (simp add: t03)
  show "init3 t3 = Inr t3"
    by (rule reinit3_same[OF same D i3])
qed

theorem init_again_witness:
  "well_formed [[0, 1], [1, 0]] 50 2 Precomputed \<and>
   (\<exists>t0 t t03 t3 t1.
      init (TSNE [[0, 1], [1, 0]] 50 10 2 Precomputed real) = Inr t0 \<and>
      steps next 3 t0 = Inr t \<and>
      init3 (TSNE3 [[0, 1], [1, 0]] 50 10 2 Precomputed real) = Inr t03 \<and>
      steps next3 3 t03 = Inr t3 \<and>
      init t = Inr t1 \<and>
      this_P t1 = this_P t \<and>
      this_ystep t1 = Some (Matrix (length [[0, 1], [1, 0::real]]) 2 (\<lambda>_ _. 0)) \<and>
      this_gains t1 = Some (Matrix (length [[0, 1], [1, 0::real]]) 2 (\<lambda>_ _. 1)) \<and>
      this_iter t1 = 3 \<and>
      init3 t3 = Inr t3)"
proof -
  let ?X = "[[0, 1], [1, 0::real]]"
  let ?c = "TSNE ?X 50 10 2 Precomputed real :: tsne"
  let ?c3 = "TSNE3 ?X 50 10 2 Precomputed real"
  let ?t0 = "init_from ?X ?c"
  let ?t03 = "init3_from ?X ?c3"
  have wf: "well_formed ?X 50 2 Precomputed"
    by (simp add: well_formed_def shaped_def)
  have i0: "init ?c = Inr ?t0"
    by (rule init_precomputed) (simp add: has_storage_def)
  have i3: "init3 ?c3 = Inr ?t03"
    by (rule init3_precomputed) (simp add: has_storage_def)
  have r: "ready ?t0" by (rule ready_init) simp
  have r3: "ready3 ?t03" by (rule ready3_init3) simp
  from ready_steps[OF r, of 3] obtain t where a: "steps next 3 ?t0 = Inr t"
    by blast
  from ready3_steps[OF r3, of 3] obtain t3 where a3: "steps next3 3 ?t03 = Inr t3"
    by blast
  from init_again[OF wf i0 a i3 a3] wf i0 a i3 a3 show ?thesis
    by blast
qed

lemma next3_gains:
  assumes "ready3 t"
    and "this_Y t = Some Y" "this_ystep t = Some ystep" "this_gains t = Some gains"
    and "this_grad t = Some grad0" "this_P t = Some P"
  shows "this_gains (projr (next3 t)) =
     Some (Matrix (this_N t) (par_d t)
       (gain' newgain3_of
          (gradient3_with (pmul_of (this_iter t + 1)) (this_N t) (par_d t) P grad0 Y) gains ystep))"
  unfolding next3_def Let_def next3_with_eq[OF assms] by simp

lemma first_next3_single:
  "this_gains (projr (next3 (init3_from [[0]] (TSNE3 [[0]] 50 10 1 Precomputed real)))) =
     Some [[4 / 5]]"
proof -
  let ?t = "init3_from [[0]] (TSNE3 [[0]] 50 10 1 Precomputed real)"
  let ?Z = "Matrix (Suc 0) (Suc 0) (\<lambda>_ _. 0)"
  have r3: "ready3 ?t" by (rule ready3_init3) simp
  have "\<exists>P. this_P ?t = Some P"
    by (simp add: init3_from_def Let_def)
  then obtain P where P: "this_P ?t = Some P" ..
  have e: "{..<Suc 0} - {0::nat} = {}" by auto
  have g: "gradient3_with pmul (Suc 0) (Suc 0) P ?Z Y = ?Z" for pmul Y
    by (subst gradient3_with_eq) (auto simp: e intro!: Matrix_cong)
  have "this_gains (projr (next3 ?t)) =
      Some (Matrix (Suc 0) (Suc 0)
        (gain' newgain3_of
           (gradient3_with (pmul_of (0 + 1)) (Suc 0) (Suc 0) P ?Z
              (Matrix (Suc 0) (Suc 0) (\<lambda>row col. real (row * Suc 0 + col) * (1 / 10 ^ 4))))
           (Matrix (Suc 0) (Suc 0) (\<lambda>_ _. 1)) ?Z))"
    using next3_gains[OF r3 _ _ _ _ P] by simp
  also have "\<dots> = Some [[4 / 5]]"
    unfolding g by (simp add: Matrix_def gain'_def newgain3_of_def sgn3_def entry_def)
  finally show ?thesis .
qed

text \<open>
  After \<open>100\<close> calls of \<open>next()\<close> a second \<open>init()\<close> of src/dimred/TSNE.js leaves the counter at
  \<open>100\<close>, so that the call after it works with \<open>pmul = 1\<close>, where the first call of a new
  object works with \<open>pmul = 4\<close>; and after one call of \<open>next()\<close> a second \<open>init()\<close> of
  src/src/dimred/TSNE.js leaves the gain \<open>0.8\<close>.
\<close>

theorem init_again_counterexample:
  "this_iter (projr (init (projr (steps next 100
      (projr (init (TSNE [[0]] 50 10 1 Precomputed real))))))) = 100 \<and>
   pmul_of (100 + 1) = 1 \<and>
   this_iter (projr (init (TSNE [[0]] 50 10 1 Precomputed real))) = 0 \<and>
   pmul_of (0 + 1) = 4 \<and>
   this_gains (projr (init3 (projr (next3
      (projr (init3 (TSNE3 [[0]] 50 10 1 Precomputed real))))))) = Some [[4 / 5]]"
proof -
  let ?c = "TSNE [[0]] 50 10 1 Precomputed real :: tsne"
  let ?c3 = "TSNE3 [[0]] 50 10 1 Precomputed real"
  let ?t0 = "init_from [[0]] ?c"
  let ?t03 = "init3_from [[0]] ?c3"
  have wf: "well_formed [[0]] 50 1 Precomputed"
    by (simp add: well_formed_def shaped_def)
  have i0: "init ?c = Inr ?t0"
    by (rule init_precomputed) (simp add: has_storage_def)
  have i3: "init3 ?c3 = Inr ?t03"
    by (rule init3_precomputed) (simp add: has_storage_def)
  have r: "ready ?t0" by (rule ready_init) simp
  have r3: "ready3 ?t03" by (rule ready3_init3) simp
  from ready_steps[OF r, of 100] obtain t where t: "steps next 100 ?t0 = Inr t"
    by auto
  from ready3_next3[OF r3] obtain t3 where t3: "next3 ?t03 = Inr t3"
    by auto
  from init_ok[of t] run_iter(2)[OF t] wf obtain t1 where t1: "init t = Inr t1"
    by (auto dest!: same_config_input_ok)
  have "this_iter t1 = this_iter t"
    using t1 by (auto simp: init_def split: sum.splits if_splits)
  then have "this_iter t1 = 100"
    using run_iter(1)[OF t] by simp
  moreover have "init3 t3 = Inr t3"
  proof (rule reinit3_same[OF _ _ i3])
    show "same_config ?t03 t3"
      using next3_setup[OF t3] by simp
    show "Delta_of ?c3 = Inr [[0]]"
      by (simp add: Delta_of_def)
  qed
  moreover have "this_gains t3 = Some [[4 / 5]]"
    using first_next3_single t3 by simp
  ultimately show ?thesis
    unfolding i0 i3 sum.sel t t1 t3 by (simp add: pmul_of_def)
qed

section \<open>The target matrix\<close>

lemma search_pass2_row:
  assumes "length (prow_of s) = N"
  shows "prow_of (search_pass2 N Htarget i dist_i s) = map (kern i dist_i (beta s)) [0..<N]"
    and "psum_of (search_pass2 N Htarget i dist_i s) = (\<Sum>j<N. kern i dist_i (beta s) j)"
  by (simp_all add: search_pass2_def kernel_pass_eq[OF assms] Let_def)

lemma search_pass2_positive:
  assumes "positive_search s"
  shows "positive_search (search_pass2 N Htarget i dist_i s)"
    and "beta s / 2 \<le> beta (search_pass2 N Htarget i dist_i s)"
proof -
  obtain prow psum dp_sum where kp:
    "kernel_pass N i dist_i (beta s) (prow_of s) = (prow, psum, dp_sum)"
    by (cases "kernel_pass N i dist_i (beta s) (prow_of s)") auto
  show "positive_search (search_pass2 N Htarget i dist_i s)"
    using assms
    by (auto simp: positive_search_def search_pass2_def kp Let_def split: option.splits)
  show "beta s / 2 \<le> beta (search_pass2 N Htarget i dist_i s)"
    using assms
    by (auto simp: positive_search_def search_pass2_def kp Let_def split: option.splits)
qed

lemma search_pass2_funpow:
  assumes "length prow = N"
  shows "positive_search ((search_pass2 N Htarget i dist_i ^^ n) (search_start prow)) \<and>
         (1 / 2) ^ n \<le> beta ((search_pass2 N Htarget i dist_i ^^ n) (search_start prow)) \<and>
         length (prow_of ((search_pass2 N Htarget i dist_i ^^ n) (search_start prow))) = N"
proof (induction n)
  case 0
  show ?case using assms by (simp add: positive_search_def search_start_def)
next
  case (Suc n)
  let ?s = "(search_pass2 N Htarget i dist_i ^^ n) (search_start prow)"
  from Suc.IH have ih: "positive_search ?s" "(1 / 2) ^ n \<le> beta ?s" "length (prow_of ?s) = N"
    by simp_all
  have "(1 / 2) ^ Suc n \<le> beta ?s / 2" using ih(2) by simp
  also have "\<dots> \<le> beta (search_pass2 N Htarget i dist_i ?s)"
    by (rule search_pass2_positive(2)[OF ih(1)])
  finally show ?case
    using search_pass2_positive(1)[OF ih(1)] search_pass2_row(1)[OF ih(3)] by simp
qed

lemma search2_result:
  assumes "length prow = N"
  shows "\<exists>b\<ge>(1 / 2) ^ 49.
           prow_of (snd (search_loop (search_pass2 N Htarget i dist_i) maxtries (search_start prow))) =
             map (kern i dist_i b) [0..<N] \<and>
           psum_of (snd (search_loop (search_pass2 N Htarget i dist_i) maxtries (search_start prow))) =
             (\<Sum>j<N. kern i dist_i b j)"
proof -
  let ?pass = "search_pass2 N Htarget i dist_i"
  let ?start = "search_start prow"
  from search_loop_passes[of maxtries ?pass ?start] obtain k where k: "k \<le> maxtries"
    "search_loop ?pass maxtries ?start = (maxtries - k, (?pass ^^ k) ?start)"
    "k < maxtries \<longrightarrow> is_done ((?pass ^^ k) ?start)"
    by blast
  have "\<not> is_done ?start" by (simp add: search_start_def)
  with k(3) obtain n where n: "k = Suc n"
    by (cases k) (auto simp: maxtries_def)
  let ?sn = "(?pass ^^ n) ?start"
  from search_pass2_funpow[OF assms, where Htarget = Htarget and i = i and dist_i = dist_i and n = n]
  have s: "(1 / 2) ^ n \<le> beta ?sn" "length (prow_of ?sn) = N"
    by simp_all
  have "n \<le> 49" using k(1) n by (simp add: maxtries_def)
  then have le: "(1 / 2 :: real) ^ 49 \<le> (1 / 2) ^ n"
    by (intro power_decreasing) simp_all
  have "(1 / 2) ^ 49 \<le> beta ?sn"
    by (rule order_trans[OF le s(1)])
  moreover have "snd (search_loop ?pass maxtries ?start) = ?pass ?sn"
    using k(2) n by simp
  ultimately show ?thesis
    using search_pass2_row[OF s(2), where Htarget = Htarget and i = i and dist_i = dist_i]
    by (intro exI[of _ "beta ?sn"]) simp
qed

lemma affinity_row2_bounded:
  assumes "shaped N N P" "i < N"
  shows "\<exists>b\<ge>(1 / 2) ^ 49. affinity_row2 N Htarget Delta i P ! i =
           map (\<lambda>p. p / (\<Sum>j<N. kern i (Delta ! i) b j)) (map (kern i (Delta ! i) b) [0..<N])"
proof -
  have len: "length (P ! i) = N"
    using assms by (simp add: shaped_def list_all_length)
  let ?s = "snd (search_loop (search_pass2 N Htarget i (Delta ! i)) maxtries (search_start (P ! i)))"
  from search2_result[OF len, where Htarget = Htarget and i = i and dist_i = "Delta ! i"] obtain b where b: "(1 / 2) ^ 49 \<le> b"
    "prow_of ?s = map (kern i (Delta ! i) b) [0..<N]"
    "psum_of ?s = (\<Sum>j<N. kern i (Delta ! i) b j)"
    by blast
  have row: "affinity_row2 N Htarget Delta i P =
      P[i := map (\<lambda>p. p / psum_of ?s) (prow_of ?s)]"
    unfolding affinity_row2_def Let_def
    by (subst fold_scale) (simp_all add: b)
  have "affinity_row2 N Htarget Delta i P ! i =
      map (\<lambda>p. p / (\<Sum>j<N. kern i (Delta ! i) b j)) (map (kern i (Delta ! i) b) [0..<N])"
    using assms unfolding row b by (simp add: shaped_def)
  with b(1) show ?thesis by blast
qed

lemma affinities2_bounded:
  "\<forall>i<N. \<exists>b\<ge>(1 / 2) ^ 49. affinities2 N Htarget Delta ! i =
       map (\<lambda>p. p / (\<Sum>j<N. kern i (Delta ! i) b j)) (map (kern i (Delta ! i) b) [0..<N])"
proof -
  let ?I = "\<lambda>k P. shaped N N P \<and> (\<forall>i<k. \<exists>b\<ge>(1 / 2) ^ 49. P ! i =
       map (\<lambda>p. p / (\<Sum>j<N. kern i (Delta ! i) b j)) (map (kern i (Delta ! i) b) [0..<N]))"
  have "?I N (fold (affinity_row2 N Htarget Delta) [0..<N] (Matrix N N (\<lambda>_ _. 0)))"
  proof (rule fold_upt_invariant[where I = ?I])
    show "0 \<le> N" by simp
    show "?I 0 (Matrix N N (\<lambda>_ _. 0))" by simp
  next
    fix k P assume k: "k < N" and P: "?I k P"
    show "?I (Suc k) (affinity_row2 N Htarget Delta k P)"
      using affinity_row2_eq(1,3)[of N P k] affinity_row2_bounded[of N P k] P k
      by (auto simp: less_Suc_eq)
  qed
  then show ?thesis by (simp add: affinities2_def)
qed

lemma far_kernel_small:
  assumes "(1 / 2) ^ 49 \<le> (b::real)"
  shows "exp (- (1000000 * b)) < 1 - 1 / 10 ^ 9"
proof -
  define x :: real where "x = 1000000 * (1 / 2) ^ 49"
  have x: "0 < x" by (simp add: x_def)
  have "x \<le> 1000000 * b" using assms by (simp add: x_def)
  then have "exp (- (1000000 * b)) \<le> exp (- x)" by simp
  also have "exp (- x) = 1 / exp x" by (simp only: exp_minus inverse_eq_divide)
  also have "\<dots> \<le> 1 / (1 + x)"
    using x by (intro frac_le exp_ge_add_one_self) simp_all
  also have "\<dots> < 1 - 1 / 10 ^ 9" by (simp add: x_def power_one_over)
  finally show ?thesis .
qed

lemma fractions_one:
  fixes a e :: real
  assumes "0 < a" "0 < e"
  shows "a / (a + e) + e / (a + e) = 1"
  using assms by (simp add: add_divide_distrib[symmetric])

lemma far_diagonal:
  assumes "e < 1 - 1 / 10 ^ 9" "0 < (e::real)"
  shows "1 / 10 ^ 9 < (1 / 10 ^ 9) / (1 / 10 ^ 9 + e)"
proof -
  have "1 / 10 ^ 9 + e < 1" using assms by simp
  moreover have "0 < 1 / 10 ^ 9 + e" using assms by simp
  ultimately show ?thesis
    by (simp add: field_simps)
qed

lemma far_points_total:
  "1 + 1 / 10 ^ 9 <
     sum_entries 2 2 (symmetrize2 2 (affinities2 2 Htarget [[0, 1000000], [1000000, 0]]))"
proof -
  let ?D = "[[0, 1000000], [1000000, 0::real]]"
  let ?A = "affinities2 2 Htarget ?D"
  have sh: "shaped 2 2 ?A" using affinities2_eq[of 2] by simp
  have two: "[0..<2] = [0, Suc 0]" by (simp add: upt_rec numeral_2_eq_2)
  from affinities2_bounded[of 2 Htarget ?D] obtain b0 b1 where
    b0: "(1 / 2) ^ 49 \<le> b0"
      "?A ! 0 = map (\<lambda>p. p / (\<Sum>j<2. kern 0 (?D ! 0) b0 j)) (map (kern 0 (?D ! 0) b0) [0..<2])"
    and b1: "(1 / 2) ^ 49 \<le> b1"
      "?A ! 1 = map (\<lambda>p. p / (\<Sum>j<2. kern 1 (?D ! 1) b1 j)) (map (kern 1 (?D ! 1) b1) [0..<2])"
    by (metis one_less_numeral_iff pos2 semiring_norm(76))
  let ?e0 = "exp (- (1000000 * b0))" and ?e1 = "exp (- (1000000 * b1))"
  have r0: "?A ! 0 = [(1 / 10 ^ 9) / (1 / 10 ^ 9 + ?e0), ?e0 / (1 / 10 ^ 9 + ?e0)]"
    unfolding b0(2) by (simp add: kern_def two lessThan_Suc numeral_2_eq_2)
  have r1: "?A ! 1 = [?e1 / (1 / 10 ^ 9 + ?e1), (1 / 10 ^ 9) / (1 / 10 ^ 9 + ?e1)]"
    unfolding b1(2) by (simp add: kern_def two lessThan_Suc numeral_2_eq_2 add.commute)
  define a0 where "a0 = (1 / 10 ^ 9) / (1 / 10 ^ 9 + ?e0)"
  define c0 where "c0 = ?e0 / (1 / 10 ^ 9 + ?e0)"
  define a1 where "a1 = (1 / 10 ^ 9) / (1 / 10 ^ 9 + ?e1)"
  define c1 where "c1 = ?e1 / (1 / 10 ^ 9 + ?e1)"
  define eps :: real where "eps = 1 / 10 ^ 9"
  have d0: "eps < a0"
    unfolding a0_def eps_def by (rule far_diagonal[OF far_kernel_small[OF b0(1)]]) simp
  have d1: "eps < a1"
    unfolding a1_def eps_def by (rule far_diagonal[OF far_kernel_small[OF b1(1)]]) simp
  have s0: "a0 + c0 = 1"
    unfolding a0_def c0_def by (rule fractions_one) simp_all
  have s1: "a1 + c1 = 1"
    unfolding a1_def c1_def by (rule fractions_one) simp_all
  have A0: "?A ! 0 = [a0, c0]" unfolding a0_def c0_def by (rule r0)
  have A1: "?A ! Suc 0 = [c1, a1]" unfolding a1_def c1_def using r1 by simp
  have "sum_entries 2 2 (symmetrize2 2 ?A) = a0 + a1 + (c0 + c1) / 2"
    unfolding symmetrize2_eq[OF sh]
    by (simp add: sum_entries_def lessThan_Suc numeral_2_eq_2 entry_def A0 A1[unfolded numeral_2_eq_2]
        A0[unfolded numeral_2_eq_2] field_simps)
  also have "\<dots> = 1 + (a0 + a1) * (1 / 2)"
  proof -
    have "c0 = 1 - a0" "c1 = 1 - a1" using s0 s1 by linarith+
    then show ?thesis by (simp add: field_simps)
  qed
  finally have "sum_entries 2 2 (symmetrize2 2 ?A) = 1 + (a0 + a1) * (1 / 2)" .
  moreover have "2 * eps < a0 + a1"
    using d0 d1 by linarith
  ultimately have "1 + eps < sum_entries 2 2 (symmetrize2 2 ?A)" by simp
  then show ?thesis by (simp only: eps_def)
qed

lemma steps2_single:
  assumes "this_N t = 1" "ready2 t"
  shows "\<exists>t'. steps next2 (Suc k) t = Inr t' \<and> this_Y t' = Some NaNs \<and>
           this_ystep t' = Some NaNs \<and> this_P t' = this_P t"
proof -
  from ready2_steps[OF assms(2), of k] obtain t1 where t1: "steps next2 k t = Inr t1"
    "ready2 t1" "this_P t1 = this_P t" "this_N t1 = this_N t"
    by blast
  from t1(2) obtain cY cV G P where f: "0 < par_d t1" "this_Y t1 = Some cY"
    "this_ystep t1 = Some cV" "this_gains t1 = Some G" "this_P t1 = Some P"
    by (auto simp: ready2_def)
  have N: "this_N t1 = 1" using t1(4) assms(1) by simp
  show ?thesis
    unfolding steps_Suc_right t1(1) using t1(3) f(5)
    by (simp add: next2_single[OF N f])
qed

subsection \<open>Symmetry and sum of \<open>P\<close>\<close>

text \<open>
  Claim C1, amended.  On a well-formed input with at least one point both versions of
  \<open>init()\<close> return.  \<open>P\<close> after the first version is symmetric and its entries sum to
  exactly \<open>1\<close>; \<open>P\<close> after the second version is symmetric and its entries off the diagonal
  are \<open>(p_{j|i} + p_{i|j}) / (2 N)\<close> for the row-normalized \<open>p\<close>.  In both versions every call
  of \<open>next()\<close> returns and leaves \<open>P\<close> as \<open>init()\<close> made it, whatever the number of points.
\<close>

theorem target_fixed:
  assumes "well_formed X perp dm m" and "0 < length X"
  shows "(\<exists>t0 P. init (TSNE X perp eps dm m g) = Inr t0 \<and> this_P t0 = Some P \<and>
             (\<forall>i<length X. \<forall>j<length X. entry P i j = entry P j i) \<and>
             sum_entries (length X) (length X) P = 1 \<and>
             (\<exists>t'. steps next k t0 = Inr t' \<and> this_P t' = Some P)) \<and>
         (\<exists>Delta t2 P2.
             Delta_of (TSNE X perp eps dm m g :: tsne2) = Inr Delta \<and>
             init2 (TSNE X perp eps dm m g) = Inr t2 \<and> this_P t2 = Some P2 \<and>
             (\<forall>i<length X. \<forall>j<length X. entry P2 i j = entry P2 j i \<and>
                (i \<noteq> j \<longrightarrow> entry P2 i j =
                   (entry (affinities2 (length X) (ln perp) Delta) i j +
                    entry (affinities2 (length X) (ln perp) Delta) j i) /
                   (2 * real (length X)))) \<and>
             (\<exists>t'. steps next2 k t2 = Inr t' \<and> this_P t' = Some P2))"
proof
  let ?c = "TSNE X perp eps dm m g :: tsne"
  have d: "0 < par_d ?c" using assms(1) by (simp add: well_formed_def)
  from init_ok[of ?c] assms(1) obtain Delta where
    i0: "init ?c = Inr (init_from Delta ?c)"
    by auto
  from init_P_props[of ?c Delta] assms(2) obtain P where P: "this_P (init_from Delta ?c) = Some P"
    "\<forall>i<length X. \<forall>j<length X. entry P i j = entry P j i" "sum_entries (length X) (length X) P = 1"
    by auto
  from steps_P_kept[OF ready_init[OF d, of Delta], of k] P(1)
  have "\<exists>t'. steps next k (init_from Delta ?c) = Inr t' \<and> this_P t' = Some P" by simp
  with i0 P show "\<exists>t0 P. init ?c = Inr t0 \<and> this_P t0 = Some P \<and>
             (\<forall>i<length X. \<forall>j<length X. entry P i j = entry P j i) \<and>
             sum_entries (length X) (length X) P = 1 \<and>
             (\<exists>t'. steps next k t0 = Inr t' \<and> this_P t' = Some P)"
    by blast
next
  let ?c = "TSNE X perp eps dm m g :: tsne2"
  have d: "0 < par_d ?c" using assms(1) by (simp add: well_formed_def)
  from init2_ok[of ?c] assms(1) obtain Delta where
    D: "Delta_of ?c = Inr Delta" and i2: "init2 ?c = Inr (init2_from Delta ?c)"
    by auto
  let ?A = "affinities2 (length X) (ln perp) Delta"
  from init2_P_props[of Delta ?c] obtain P2 where P2: "this_P (init2_from Delta ?c) = Some P2"
    "\<forall>i<length X. \<forall>j<length X. entry P2 i j = entry P2 j i \<and>
        (i \<noteq> j \<longrightarrow> entry P2 i j = (entry ?A i j + entry ?A j i) / (2 * real (length X)))"
    by auto
  have "\<exists>t'. steps next2 k (init2_from Delta ?c) = Inr t' \<and> this_P t' = Some P2"
    using steps2_P_kept[OF ready_init2[OF d, of Delta], of k] P2(1) by simp
  with D i2 P2 show "\<exists>Delta t2 P2.
             Delta_of ?c = Inr Delta \<and> init2 ?c = Inr t2 \<and> this_P t2 = Some P2 \<and>
             (\<forall>i<length X. \<forall>j<length X. entry P2 i j = entry P2 j i \<and>
                (i \<noteq> j \<longrightarrow> entry P2 i j =
                   (entry (affinities2 (length X) (ln perp) Delta) i j +
                    entry (affinities2 (length X) (ln perp) Delta) j i) /
                   (2 * real (length X)))) \<and>
             (\<exists>t'. steps next2 k t2 = Inr t' \<and> this_P t' = Some P2)"
    by blast
qed

theorem target_fixed_witness:
  "well_formed [[0, 1], [1, 0]] 50 2 Precomputed \<and> (0::nat) < length [[0, 1], [1, 0::real]] \<and>
   (\<exists>t0 P. init (TSNE [[0, 1], [1, 0]] 50 10 2 Precomputed real) = Inr t0 \<and>
        this_P t0 = Some P \<and> entry P 0 1 = entry P 1 0 \<and>
        sum_entries (length [[0, 1], [1, 0::real]]) (length [[0, 1], [1, 0::real]]) P = 1 \<and>
        (\<exists>t'. steps next 3 t0 = Inr t' \<and> this_P t' = Some P)) \<and>
   (\<exists>t2 P2. init2 (TSNE [[0, 1], [1, 0]] 50 10 2 Precomputed real) = Inr t2 \<and>
        this_P t2 = Some P2 \<and> entry P2 0 1 = entry P2 1 0 \<and>
        (\<exists>t'. steps next2 3 t2 = Inr t' \<and> this_P t' = Some P2)) \<and>
   well_formed [[0]] 50 2 Precomputed \<and> (0::nat) < length [[0::real]] \<and>
   (\<exists>t2 P2. init2 (TSNE [[0]] 50 10 2 Precomputed real) = Inr t2 \<and>
        this_P t2 = Some P2 \<and>
        (\<exists>t'. steps next2 3 t2 = Inr t' \<and> this_P t' = Some P2 \<and> this_Y t' = Some NaNs))"
proof -
  let ?X = "[[0, 1], [1, 0::real]]"
  let ?c = "TSNE ?X 50 10 2 Precomputed real :: tsne"
  let ?c2 = "TSNE ?X 50 10 2 Precomputed real :: tsne2"
  have wf: "well_formed ?X 50 2 Precomputed"
    by (simp add: well_formed_def shaped_def)
  have h: "(0::nat) < length ?X" by simp
  from target_fixed[OF wf h, of 10 real 3] obtain t0 P t2 P2 where
    P: "init ?c = Inr t0" "this_P t0 = Some P"
      "\<forall>i<length ?X. \<forall>j<length ?X. entry P i j = entry P j i"
      "sum_entries (length ?X) (length ?X) P = 1"
      "\<exists>t'. steps next 3 t0 = Inr t' \<and> this_P t' = Some P"
    and P2: "init2 ?c2 = Inr t2" "this_P t2 = Some P2"
      "\<forall>i<length ?X. \<forall>j<length ?X. entry P2 i j = entry P2 j i \<and>
          (i \<noteq> j \<longrightarrow> entry P2 i j =
             (entry (affinities2 (length ?X) (ln 50) ?X) i j +
              entry (affinities2 (length ?X) (ln 50) ?X) j i) / (2 * real (length ?X)))"
      "\<exists>t'. steps next2 3 t2 = Inr t' \<and> this_P t' = Some P2"
    by (auto simp: Delta_of_TSNE)
  have a: "entry P 0 1 = entry P 1 0" using P(3) by simp
  have b: "entry P2 0 1 = entry P2 1 0" using P2(3) by simp
  let ?d = "TSNE [[0]] 50 10 2 Precomputed real :: tsne2"
  have wf1: "well_formed [[0]] 50 2 Precomputed"
    by (simp add: well_formed_def shaped_def)
  have h1: "(0::nat) < length [[0::real]]" by simp
  from target_fixed[OF wf1 h1, of 10 real 3] obtain s2 Q2 s' where
    Q2: "init2 ?d = Inr s2" "this_P s2 = Some Q2" "steps next2 3 s2 = Inr s'"
      "this_P s' = Some Q2"
    by blast
  have "s2 = init2_from [[0]] ?d"
    using Q2(1) by (simp add: init2_precomputed has_storage_def)
  then have "this_N s2 = 1" "ready2 s2"
    by (simp_all add: ready_init2)
  from steps2_single[OF this, of 2] Q2(3) have "this_Y s' = Some NaNs"
    by (simp add: numeral_3_eq_3)
  with Q2 have c: "\<exists>t2 P2. init2 ?d = Inr t2 \<and> this_P t2 = Some P2 \<and>
        (\<exists>t'. steps next2 3 t2 = Inr t' \<and> this_P t' = Some P2 \<and> this_Y t' = Some NaNs)"
    by blast
  from wf h P(1,2) a P(4,5) P2(1,2) b P2(4) wf1 h1 c show ?thesis
    by blast
qed

lemma zero_distance_affinities2:
  "affinities2 2 Htarget [[0, 0], [0, 0]] =
     [[1 / 1000000001, 1000000000 / 1000000001], [1000000000 / 1000000001, 1 / 1000000001]]"
proof -
  let ?A = "affinities2 2 Htarget [[0, 0], [0, 0]]"
  from affinities2_eq[of 2 Htarget "[[0, 0], [0, 0]]"]
  have len: "length ?A = 2"
    and rows: "\<forall>i<2. \<exists>b. ?A ! i =
       map (\<lambda>p. p / (\<Sum>j<2. kern i ([[0, 0], [0, 0]] ! i) b j))
         (map (kern i ([[0, 0], [0, 0]] ! i) b) [0..<2])"
    by (simp_all add: shaped_def)
  have two: "[0..<2] = [0, Suc 0]" by (simp add: upt_rec numeral_2_eq_2)
  from rows have "?A ! 0 = [1 / 1000000001, 1000000000 / 1000000001]"
    by (auto simp: kern_def two lessThan_Suc numeral_2_eq_2)
  moreover from rows have "?A ! 1 = [1000000000 / 1000000001, 1 / 1000000001]"
    by (auto simp: kern_def two lessThan_Suc numeral_2_eq_2)
  ultimately show ?thesis
    using len by (intro nth_equalityI) (auto simp: less_Suc_eq numeral_2_eq_2)
qed

text \<open>
  In the second version the loop of the symmetrization starts at \<open>j = i + 1\<close>: the diagonal
  keeps its row-normalized value.  With two points at distance \<open>0\<close> the entries of \<open>P\<close> sum
  to \<open>1000000002 / 1000000001\<close>; with two points at the squared distance \<open>1000000\<close> they
  sum to more than \<open>1 + 1e-9\<close>, whatever precision the search ends with.
\<close>

theorem target_fixed_counterexample:
  "sum_entries 2 2 (the (this_P (projr (init2 (TSNE [[0, 0], [0, 0]] 50 10 2 Precomputed real))))) =
     1000000002 / 1000000001 \<and>
   1 + 1 / 10 ^ 9 <
     sum_entries 2 2
       (the (this_P (projr (init2 (TSNE [[0, 1000000], [1000000, 0]] 50 10 2 Precomputed real)))))"
proof
  have sh: "shaped 2 2 (affinities2 2 (ln 50) [[0, 0], [0, 0]])"
    using affinities2_eq[of 2] by simp
  have "the (this_P (projr (init2 (TSNE [[0, 0], [0, 0]] 50 10 2 Precomputed real)))) =
      symmetrize2 2 (affinities2 2 (ln 50) [[0, 0], [0, 0]])"
    by (simp add: init2_precomputed has_storage_def init2_P numeral_2_eq_2)
  also have "\<dots> = Matrix 2 2 (\<lambda>r c.
      if r \<noteq> c
      then (entry (affinities2 2 (ln 50) [[0, 0], [0, 0]]) r c +
            entry (affinities2 2 (ln 50) [[0, 0], [0, 0]]) c r) * (1 / (real 2 * 2))
      else entry (affinities2 2 (ln 50) [[0, 0], [0, 0]]) r c)"
    by (rule symmetrize2_eq[OF sh])
  also have "sum_entries 2 2 \<dots> = 1000000002 / 1000000001"
    unfolding zero_distance_affinities2
    by (simp add: sum_entries_def lessThan_Suc numeral_2_eq_2 entry_def)
  finally show "sum_entries 2 2
      (the (this_P (projr (init2 (TSNE [[0, 0], [0, 0]] 50 10 2 Precomputed real))))) =
      1000000002 / 1000000001" .
next
  have "the (this_P (projr (init2 (TSNE [[0, 1000000], [1000000, 0]] 50 10 2 Precomputed real)))) =
      symmetrize2 2 (affinities2 2 (ln 50) [[0, 1000000], [1000000, 0]])"
    by (simp add: init2_precomputed has_storage_def init2_P numeral_2_eq_2)
  then show "1 + 1 / 10 ^ 9 <
     sum_entries 2 2
       (the (this_P (projr (init2 (TSNE [[0, 1000000], [1000000, 0]] 50 10 2 Precomputed real)))))"
    using far_points_total[of "ln 50"] by simp
qed

section \<open>The rule of the gain\<close>

lemma affinity_row_content:
  assumes "shaped N N P" "i < N"
  shows "\<exists>b. affinity_row N Htarget Delta i P ! i =
           map (\<lambda>p. p * (1 / (2 * real N * (\<Sum>j<N. kern i (Delta ! i) b j))))
             (map (kern i (Delta ! i) b) [0..<N])"
proof -
  have len: "length (P ! i) = N"
    using assms by (simp add: shaped_def list_all_length)
  let ?s = "snd (search_row N Htarget i (Delta ! i) (P ! i))"
  have "row_inv N i (Delta ! i) ?s"
    unfolding search_row_def using search_pass_inv len by (rule search_loop_first)
  then obtain b where b: "prow_of ?s = map (kern i (Delta ! i) b) [0..<N]"
    "psum_of ?s = (\<Sum>j<N. kern i (Delta ! i) b j)"
    by (auto simp: row_inv_def)
  have row: "affinity_row N Htarget Delta i P =
      P[i := map (\<lambda>p. p * (1 / (2 * real N * psum_of ?s))) (prow_of ?s)]"
    unfolding affinity_row_def Let_def
    by (subst fold_scale) (simp_all add: b)
  have "affinity_row N Htarget Delta i P ! i =
      map (\<lambda>p. p * (1 / (2 * real N * (\<Sum>j<N. kern i (Delta ! i) b j))))
        (map (kern i (Delta ! i) b) [0..<N])"
    using assms unfolding row b by (simp add: shaped_def)
  then show ?thesis by (rule exI)
qed

lemma affinities_content:
  "\<forall>i<N. \<exists>b. affinities N Htarget Delta ! i =
       map (\<lambda>p. p * (1 / (2 * real N * (\<Sum>j<N. kern i (Delta ! i) b j))))
         (map (kern i (Delta ! i) b) [0..<N])"
proof -
  let ?I = "\<lambda>k P. shaped N N P \<and> (\<forall>i<k. \<exists>b. P ! i =
       map (\<lambda>p. p * (1 / (2 * real N * (\<Sum>j<N. kern i (Delta ! i) b j))))
         (map (kern i (Delta ! i) b) [0..<N]))"
  have "?I N (fold (affinity_row N Htarget Delta) [0..<N] (Matrix N N (\<lambda>_ _. 0)))"
  proof (rule fold_upt_invariant[where I = ?I])
    show "0 \<le> N" by simp
    show "?I 0 (Matrix N N (\<lambda>_ _. 0))" by simp
  next
    fix k P assume k: "k < N" and P: "?I k P"
    show "?I (Suc k) (affinity_row N Htarget Delta k P)"
      using affinity_row_eq(1,3)[of N P k] affinity_row_content[of N P k] P k
      by (auto simp: less_Suc_eq)
  qed
  then show ?thesis by (simp add: affinities_def)
qed

lemma zero_distance_affinities:
  "affinities 2 Htarget [[0, 0], [0, 0]] =
     [[1 / 4000000004, 1000000000 / 4000000004], [1000000000 / 4000000004, 1 / 4000000004]]"
proof -
  let ?A = "affinities 2 Htarget [[0, 0], [0, 0]]"
  have len: "length ?A = 2"
    using affinities_eq[of 2 Htarget "[[0, 0], [0, 0]]"] by (simp add: shaped_def)
  have two: "[0..<2] = [0, Suc 0]" by (simp add: upt_rec numeral_2_eq_2)
  from affinities_content[of 2 Htarget "[[0, 0], [0, 0]]"]
  have "?A ! 0 = [1 / 4000000004, 1000000000 / 4000000004]"
    by (auto simp: kern_def two lessThan_Suc numeral_2_eq_2)
  moreover from affinities_content[of 2 Htarget "[[0, 0], [0, 0]]"]
  have "?A ! 1 = [1000000000 / 4000000004, 1 / 4000000004]"
    by (auto simp: kern_def two lessThan_Suc numeral_2_eq_2)
  ultimately show ?thesis
    using len by (intro nth_equalityI) (auto simp: less_Suc_eq numeral_2_eq_2)
qed

lemma next_gains:
  assumes "ready t"
    and "this_Y t = Some Y" "this_ystep t = Some ystep" "this_gains t = Some gains"
    and "this_P t = Some P"
  shows "this_gains (projr (next t)) =
     Some (Matrix (this_N t) (par_d t)
       (gain' newgain_of
          (gradient (this_N t) (par_d t) (pmul_of (this_iter t + 1)) P Y) gains ystep))"
  unfolding next_def Let_def next_with_eq[OF assms] by simp

lemma coincident_points_first_gradient:
  "entry (gradient 2 1 (pmul_of 1)
            (the (this_P (init_from [[0, 0], [0, 0]] (TSNE [[0, 0], [0, 0]] 50 10 1 Precomputed real))))
            (the (this_Y (init_from [[0, 0], [0, 0]] (TSNE [[0, 0], [0, 0]] 50 10 1 Precomputed real)))))
      0 0 < 0"
proof -
  let ?c = "TSNE [[0, 0], [0, 0]] 50 10 1 Precomputed real :: tsne"
  let ?t0 = "init_from [[0, 0], [0, 0]] ?c"
  let ?A = "affinities 2 (ln 50) [[0, 0], [0, 0]]"
  have sh: "shaped 2 2 ?A" using affinities_eq[of 2] by simp
  have P: "the (this_P ?t0) = Matrix 2 2 (\<lambda>r c. entry ?A r c + entry ?A c r)"
    by (simp add: init_P numeral_2_eq_2 symmetrize_eq[OF sh, unfolded numeral_2_eq_2])
  have Y: "the (this_Y ?t0) = [[0], [1 / 10000]]"
    by (simp add: fresh_Y_def Matrix_def upt_rec numeral_2_eq_2)
  have sets: "{Suc 0, 0} - {0::nat} = {Suc 0}" "{Suc 0, 0} - {Suc 0} = {0::nat}" by auto
  have "entry (gradient 2 1 (pmul_of 1) (the (this_P ?t0)) (the (this_Y ?t0))) 0 0 =
      gradient_spec 2 1 (pmul_of 1) (the (this_P ?t0)) (the (this_Y ?t0)) 0 0"
    by (rule gradient_entry) simp_all
  also have "\<dots> < 0"
    unfolding P Y zero_distance_affinities
    by (simp add: gradient_spec_def qsum_spec_def Q_spec_def sets pmul_of_def entry_def
        lessThan_Suc numeral_2_eq_2 Matrix_def upt_rec)
  finally show ?thesis .
qed

subsection \<open>Gain, velocity and momentum\<close>

text \<open>
  Claim C3, amended.  In a call of \<open>next()\<close>, for every cell: src/dimred/TSNE.js adds \<open>0.2\<close> to
  the gain when gradient times velocity is negative and multiplies it by \<open>0.8\<close> otherwise, so
  also when one of the two is zero; src/src/dimred/TSNE.js multiplies the gain by \<open>0.8\<close> when
  gradient and velocity have the same sign (\<open>-1\<close>, \<open>0\<close> or \<open>1\<close>) and adds \<open>0.2\<close> otherwise, so
  also when exactly one of the two is zero.  Both clamp the gain at \<open>0.01\<close>; the new velocity
  is momentum times velocity minus learning rate times new gain times gradient, with the
  momentum \<open>0.5\<close> while the counter, the number of the call, is below \<open>250\<close> and \<open>0.8\<close> from
  then on; the new \<open>Y\<close> is \<open>Y\<close> plus the new velocity, less the mean of its column.
\<close>

theorem gain_and_velocity:
  assumes "well_formed X perp dm m"
    and "init (TSNE X perp eps dm m g) = Inr t0" and "steps next k t0 = Inr t"
    and "init3 (TSNE3 X perp eps dm m g) = Inr t03" and "steps next3 k t03 = Inr t3"
  shows "(\<exists>Y V G P grad t' Y' V' G'.
            this_Y t = Some Y \<and> this_ystep t = Some V \<and> this_gains t = Some G \<and>
            this_P t = Some P \<and> grad = gradient (length X) dm (pmul_of (k + 1)) P Y \<and>
            next t = Inr t' \<and>
            this_Y t' = Some Y' \<and> this_ystep t' = Some V' \<and> this_gains t' = Some G' \<and>
            (\<forall>i<length X. \<forall>d<dm.
               entry G' i d = max (if entry grad i d * entry V i d < 0
                                   then entry G i d + 0.2 else entry G i d * 0.8) 0.01 \<and>
               entry V' i d = (if k + 1 < 250 then 0.5 else 0.8) * entry V i d -
                              eps * entry G' i d * entry grad i d \<and>
               entry Y' i d = entry Y i d + entry V' i d -
                              (\<Sum>r<length X. entry Y r d + entry V' r d) / real (length X))) \<and>
         (\<exists>Y V G P grad0 grad t' Y' V' G'.
            this_Y t3 = Some Y \<and> this_ystep t3 = Some V \<and> this_gains t3 = Some G \<and>
            this_P t3 = Some P \<and> this_grad t3 = Some grad0 \<and>
            grad = gradient3_with (pmul_of (k + 1)) (length X) dm P grad0 Y \<and>
            next3 t3 = Inr t' \<and>
            this_Y t' = Some Y' \<and> this_ystep t' = Some V' \<and> this_gains t' = Some G' \<and>
            (\<forall>i<length X. \<forall>d<dm.
               entry G' i d = max (if sgn (entry grad i d) = sgn (entry V i d)
                                   then entry G i d * 0.8 else entry G i d + 0.2) 0.01 \<and>
               entry V' i d = (if k + 1 < 250 then 0.5 else 0.8) * entry V i d -
                              eps * entry G' i d * entry grad i d \<and>
               entry Y' i d = entry Y i d + entry V' i d -
                              (\<Sum>r<length X. entry Y r d + entry V' r d) / real (length X)))"
proof
  note st = run_state(1-5)[OF assms(1,2,3)]
  from st(1) obtain Y V G P where f:
    "this_Y t = Some Y" "this_ystep t = Some V" "this_gains t = Some G" "this_P t = Some P"
    by (rule ready_fields)
  from next_velocity[OF st(1) f] f
  show "\<exists>Y V G P grad t' Y' V' G'.
            this_Y t = Some Y \<and> this_ystep t = Some V \<and> this_gains t = Some G \<and>
            this_P t = Some P \<and> grad = gradient (length X) dm (pmul_of (k + 1)) P Y \<and>
            next t = Inr t' \<and>
            this_Y t' = Some Y' \<and> this_ystep t' = Some V' \<and> this_gains t' = Some G' \<and>
            (\<forall>i<length X. \<forall>d<dm.
               entry G' i d = max (if entry grad i d * entry V i d < 0
                                   then entry G i d + 0.2 else entry G i d * 0.8) 0.01 \<and>
               entry V' i d = (if k + 1 < 250 then 0.5 else 0.8) * entry V i d -
                              eps * entry G' i d * entry grad i d \<and>
               entry Y' i d = entry Y i d + entry V' i d -
                              (\<Sum>r<length X. entry Y r d + entry V' r d) / real (length X))"
    unfolding st(2-5) by (auto simp: newgain_of_def momval_of_def)
next
  note st3 = run3_state(1-5)[OF assms(1,4,5)]
  note r3 = st3(1)
  note it = st3(4)
  note same = st3(2,3,5)
  from r3 obtain Y V G grad0 P where f:
    "this_Y t3 = Some Y" "this_ystep t3 = Some V" "this_gains t3 = Some G"
    "this_grad t3 = Some grad0" "this_P t3 = Some P"
    by (rule ready3_fields)
  from next3_velocity[OF r3 f] f
  show "\<exists>Y V G P grad0 grad t' Y' V' G'.
            this_Y t3 = Some Y \<and> this_ystep t3 = Some V \<and> this_gains t3 = Some G \<and>
            this_P t3 = Some P \<and> this_grad t3 = Some grad0 \<and>
            grad = gradient3_with (pmul_of (k + 1)) (length X) dm P grad0 Y \<and>
            next3 t3 = Inr t' \<and>
            this_Y t' = Some Y' \<and> this_ystep t' = Some V' \<and> this_gains t' = Some G' \<and>
            (\<forall>i<length X. \<forall>d<dm.
               entry G' i d = max (if sgn (entry grad i d) = sgn (entry V i d)
                                   then entry G i d * 0.8 else entry G i d + 0.2) 0.01 \<and>
               entry V' i d = (if k + 1 < 250 then 0.5 else 0.8) * entry V i d -
                              eps * entry G' i d * entry grad i d \<and>
               entry Y' i d = entry Y i d + entry V' i d -
                              (\<Sum>r<length X. entry Y r d + entry V' r d) / real (length X))"
    unfolding same it by (auto simp: newgain3_of_sgn momval_of_def)
qed

theorem gain_and_velocity_witness:
  "well_formed [[0, 1], [1, 0]] 50 2 Precomputed \<and>
   (\<exists>t0 t03.
      init (TSNE [[0, 1], [1, 0]] 50 10 2 Precomputed real) = Inr t0 \<and>
      steps next 0 t0 = Inr t0 \<and>
      init3 (TSNE3 [[0, 1], [1, 0]] 50 10 2 Precomputed real) = Inr t03 \<and>
      steps next3 0 t03 = Inr t03 \<and>
      (\<exists>V G grad t' V' G'.
         this_ystep t0 = Some V \<and> this_gains t0 = Some G \<and> next t0 = Inr t' \<and>
         this_ystep t' = Some V' \<and> this_gains t' = Some G' \<and>
         entry G' 1 0 = max (if entry grad 1 0 * entry V 1 0 < 0
                             then entry G 1 0 + 0.2 else entry G 1 0 * 0.8) 0.01 \<and>
         entry V' 1 0 = (if (0::nat) + 1 < 250 then 0.5 else 0.8) * entry V 1 0 -
                        10 * entry G' 1 0 * entry grad 1 0) \<and>
      (\<exists>V G grad t' V' G'.
         this_ystep t03 = Some V \<and> this_gains t03 = Some G \<and> next3 t03 = Inr t' \<and>
         this_ystep t' = Some V' \<and> this_gains t' = Some G' \<and>
         entry G' 1 0 = max (if sgn (entry grad 1 0) = sgn (entry V 1 0)
                             then entry G 1 0 * 0.8 else entry G 1 0 + 0.2) 0.01 \<and>
         entry V' 1 0 = (if (0::nat) + 1 < 250 then 0.5 else 0.8) * entry V 1 0 -
                        10 * entry G' 1 0 * entry grad 1 0))"
proof -
  let ?X = "[[0, 1], [1, 0::real]]"
  let ?c = "TSNE ?X 50 10 2 Precomputed real :: tsne"
  let ?c3 = "TSNE3 ?X 50 10 2 Precomputed real"
  let ?t0 = "init_from ?X ?c"
  let ?t03 = "init3_from ?X ?c3"
  have wf: "well_formed ?X 50 2 Precomputed"
    by (simp add: well_formed_def shaped_def)
  have i0: "init ?c = Inr ?t0"
    by (rule init_precomputed) (simp add: has_storage_def)
  have i3: "init3 ?c3 = Inr ?t03"
    by (rule init3_precomputed) (simp add: has_storage_def)
  have run: "steps next 0 ?t0 = Inr ?t0"
    by simp
  have run3: "steps next3 0 ?t03 = Inr ?t03"
    by simp
  from gain_and_velocity[OF wf i0 run i3 run3] obtain V G grad t' V' G' V3 G3 grad3 t3' V3' G3' where
    a: "this_ystep ?t0 = Some V" "this_gains ?t0 = Some G" "next ?t0 = Inr t'"
      "this_ystep t' = Some V'" "this_gains t' = Some G'"
    and b: "\<forall>i<length ?X. \<forall>d<2.
               entry G' i d = max (if entry grad i d * entry V i d < 0
                                   then entry G i d + 0.2 else entry G i d * 0.8) 0.01 \<and>
               entry V' i d = (if (0::nat) + 1 < 250 then 0.5 else 0.8) * entry V i d -
                              10 * entry G' i d * entry grad i d"
    and a3: "this_ystep ?t03 = Some V3" "this_gains ?t03 = Some G3"
      "next3 ?t03 = Inr t3'" "this_ystep t3' = Some V3'" "this_gains t3' = Some G3'"
    and b3: "\<forall>i<length ?X. \<forall>d<2.
               entry G3' i d = max (if sgn (entry grad3 i d) = sgn (entry V3 i d)
                                   then entry G3 i d * 0.8 else entry G3 i d + 0.2) 0.01 \<and>
               entry V3' i d = (if (0::nat) + 1 < 250 then 0.5 else 0.8) * entry V3 i d -
                              10 * entry G3' i d * entry grad3 i d"
    by blast
  from b have c: "entry G' 1 0 = max (if entry grad 1 0 * entry V 1 0 < 0
                                   then entry G 1 0 + 0.2 else entry G 1 0 * 0.8) 0.01 \<and>
               entry V' 1 0 = (if (0::nat) + 1 < 250 then 0.5 else 0.8) * entry V 1 0 -
                              10 * entry G' 1 0 * entry grad 1 0"
    by simp
  from b3 have c3: "entry G3' 1 0 = max (if sgn (entry grad3 1 0) = sgn (entry V3 1 0)
                                   then entry G3 1 0 * 0.8 else entry G3 1 0 + 0.2) 0.01 \<and>
               entry V3' 1 0 = (if (0::nat) + 1 < 250 then 0.5 else 0.8) * entry V3 1 0 -
                              10 * entry G3' 1 0 * entry grad3 1 0"
    by simp
  from wf i0 run i3 run3 a c a3 c3 show ?thesis
    by blast
qed

text \<open>
  Two coincident points, one output dimension, the Gaussian values \<open>0\<close> and \<open>1\<close>: in the
  first call of \<open>next()\<close> of src/dimred/TSNE.js the gradient of the cell \<open>(0, 0)\<close> is negative
  and its velocity is \<open>0\<close>, so the signs disagree and the rule of the specification gives the
  gain \<open>1.2\<close>; line 190 gives \<open>0.8\<close>.  On a cell with gradient \<open>1\<close>, velocity \<open>0\<close> and gain \<open>1\<close>
  line 190 gives \<open>0.8\<close> and line 152 of src/src/dimred/TSNE.js gives \<open>1.2\<close>.
\<close>

theorem gain_and_velocity_counterexample:
  "entry (gradient 2 1 (pmul_of 1)
            (the (this_P (projr (init (TSNE [[0, 0], [0, 0]] 50 10 1 Precomputed real)))))
            (the (this_Y (projr (init (TSNE [[0, 0], [0, 0]] 50 10 1 Precomputed real))))))
      0 0 < 0 \<and>
   entry (the (this_ystep (projr (init (TSNE [[0, 0], [0, 0]] 50 10 1 Precomputed real)))))
      0 0 = 0 \<and>
   entry (the (this_gains (projr (init (TSNE [[0, 0], [0, 0]] 50 10 1 Precomputed real)))))
      0 0 = 1 \<and>
   gain_rule_spec
     (entry (gradient 2 1 (pmul_of 1)
               (the (this_P (projr (init (TSNE [[0, 0], [0, 0]] 50 10 1 Precomputed real)))))
               (the (this_Y (projr (init (TSNE [[0, 0], [0, 0]] 50 10 1 Precomputed real))))))
        0 0)
     0 1 = 6 / 5 \<and>
   entry (the (this_gains
            (projr (next (projr (init (TSNE [[0, 0], [0, 0]] 50 10 1 Precomputed real)))))))
      0 0 = 4 / 5 \<and>
   newgain_of 1 0 1 = 4 / 5 \<and> newgain3_of 1 0 1 = 6 / 5"
proof -
  let ?c = "TSNE [[0, 0], [0, 0]] 50 10 1 Precomputed real :: tsne"
  let ?t0 = "init_from [[0, 0], [0, 0]] ?c"
  let ?g = "entry (gradient 2 1 (pmul_of 1) (the (this_P ?t0)) (the (this_Y ?t0))) 0 0"
  have i0: "init ?c = Inr ?t0"
    by (rule init_precomputed) (simp add: has_storage_def)
  have g: "?g < 0" by (rule coincident_points_first_gradient)
  have r: "ready ?t0" by (rule ready_init) simp
  have P: "this_P ?t0 = Some (the (this_P ?t0))"
    by (simp add: init_P)
  have "this_gains (projr (next ?t0)) =
      Some (Matrix 2 1 (gain' newgain_of
         (gradient 2 1 (pmul_of 1) (the (this_P ?t0)) (the (this_Y ?t0)))
         (Matrix 2 1 (\<lambda>_ _. 1)) (Matrix 2 1 (\<lambda>_ _. 0))))"
    using next_gains[OF r _ _ _ P] by (simp add: numeral_2_eq_2)
  then have "entry (the (this_gains (projr (next ?t0)))) 0 0 = newgain_of ?g 0 1"
    by (simp add: gain'_def)
  also have "\<dots> = 4 / 5" by (simp add: newgain_of_def)
  finally have a: "entry (the (this_gains (projr (next ?t0)))) 0 0 = 4 / 5" .
  have b: "gain_rule_spec ?g 0 1 = 6 / 5"
    using g by (simp add: gain_rule_spec_def)
  have c: "newgain_of 1 0 1 = 4 / 5 \<and> newgain3_of 1 0 1 = 6 / 5"
    by (simp add: newgain_of_def newgain3_of_def sgn3_def)
  have d: "entry (the (this_ystep ?t0)) 0 0 = 0" "entry (the (this_gains ?t0)) 0 0 = 1"
    by simp_all
  from g d b a c show ?thesis
    unfolding i0 sum.sel by blast
qed

section \<open>The gains along a run\<close>

lemma single_point_gains:
  assumes "ready t" "this_N t = 1" "this_gains t = Some G"
  shows "\<exists>t'. next t = Inr t' \<and> ready t' \<and> this_N t' = 1 \<and> par_d t' = par_d t \<and>
           this_gains t' = Some (Matrix 1 (par_d t) (\<lambda>i d. max (entry G i d * 0.8) 0.01))"
proof -
  from assms(1) obtain Y ystep gains P where f:
    "this_Y t = Some Y" "this_ystep t = Some ystep" "this_gains t = Some gains"
    "this_P t = Some P"
    by (rule ready_fields)
  from ready_next[OF assms(1)] obtain t' where t': "next t = Inr t'" "ready t'"
    "this_N t' = this_N t" "par_d t' = par_d t"
    by blast
  have "this_gains t' = Some (Matrix (Suc 0) (par_d t)
      (gain' newgain_of (Matrix (Suc 0) (par_d t) (\<lambda>_ _. 0)) gains ystep))"
    using next_gains[OF assms(1) f] t'(1) assms(2) by (simp add: gradient_single)
  also have "\<dots> = Some (Matrix 1 (par_d t) (\<lambda>i d. max (entry G i d * 0.8) 0.01))"
    using f(3) assms(3) by (auto simp: gain'_def newgain_of_def intro!: Matrix_cong)
  finally show ?thesis
    using t' assms(2) by simp
qed

lemma single_point_run:
  assumes "ready t" "this_N t = 1" "this_gains t = Some (Matrix 1 (par_d t) (\<lambda>_ _. c))"
  shows "\<exists>t'. steps next k t = Inr t' \<and>
           this_gains t' = Some (Matrix 1 (par_d t) (\<lambda>_ _. ((\<lambda>x. max (x * 0.8) 0.01) ^^ k) c))"
  using assms
proof (induction k arbitrary: t c)
  case 0
  then show ?case by simp
next
  case (Suc k)
  from single_point_gains[OF Suc.prems] obtain t1 where t1: "next t = Inr t1" "ready t1"
    "this_N t1 = 1" "par_d t1 = par_d t"
    "this_gains t1 = Some (Matrix 1 (par_d t)
       (\<lambda>i d. max (entry (Matrix 1 (par_d t) (\<lambda>_ _. c)) i d * 0.8) 0.01))"
    by blast
  have "Matrix 1 (par_d t) (\<lambda>i d. max (entry (Matrix 1 (par_d t) (\<lambda>_ _. c)) i d * 0.8) 0.01) =
      Matrix 1 (par_d t1) (\<lambda>_ _. max (c * 0.8) 0.01)"
    unfolding t1(4) by (rule Matrix_cong) simp
  with t1(5) have g1: "this_gains t1 = Some (Matrix 1 (par_d t1) (\<lambda>_ _. max (c * 0.8) 0.01))"
    by simp
  have e: "((\<lambda>x::real. max (x * 0.8) 0.01) ^^ Suc k) c =
      ((\<lambda>x. max (x * 0.8) 0.01) ^^ k) (max (c * 0.8) 0.01)"
    by (simp only: funpow_Suc_right comp_apply)
  have s: "steps next (Suc k) t = steps next k t1"
    using t1(1) by simp
  from Suc.IH[OF t1(2,3) g1] show ?case
    unfolding e s t1(4) .
qed

subsection \<open>The floor of the gains\<close>

text \<open>
  Claim C8.  On a well-formed input \<open>init()\<close> returns and every gain is \<open>1\<close> right after
  it, and after any number \<open>k\<close> of calls of \<open>next()\<close>, which all return, every gain is at
  least \<open>0.01\<close>.
\<close>

theorem gains_floor:
  assumes "well_formed X perp dm m"
  shows "\<exists>t0 G. init (TSNE X perp eps dm m g) = Inr t0 \<and> this_gains t0 = Some G \<and>
           (\<forall>i<length X. \<forall>d<dm. entry G i d = 1) \<and>
           (\<exists>t' G'. steps next k t0 = Inr t' \<and> this_gains t' = Some G' \<and>
              (\<forall>i<length X. \<forall>d<dm. 1 / 100 \<le> entry G' i d))"
proof -
  from init_ok[of "TSNE X perp eps dm m g"] assms obtain Delta where
    i0: "init (TSNE X perp eps dm m g) = Inr (init_from Delta (TSNE X perp eps dm m g))"
    by auto
  let ?t0 = "init_from Delta (TSNE X perp eps dm m g)"
  have r0: "ready ?t0"
    using assms by (intro ready_init) (simp add: well_formed_def)
  have "\<exists>t' G'. steps next k ?t0 = Inr t' \<and> this_gains t' = Some G' \<and>
              (\<forall>i<length X. \<forall>d<dm. 1 / 100 \<le> entry G' i d)"
  proof (cases k)
    case 0
    then show ?thesis by simp
  next
    case (Suc n)
    from ready_steps[OF r0, of n] obtain t1 where t1: "steps next n ?t0 = Inr t1" "ready t1"
      "this_N t1 = length X" "par_d t1 = dm"
      by auto
    from ready_next[OF t1(2)] obtain t2 where t2: "next t1 = Inr t2" "ready t2"
      by blast
    from t2(2) obtain G' where G': "this_gains t2 = Some G'"
      by (auto elim: ready_fields)
    have "steps next k ?t0 = Inr t2"
      unfolding Suc steps_Suc_right using t1 t2 by simp
    moreover have "\<forall>i<length X. \<forall>d<dm. 1 / 100 \<le> entry G' i d"
      using next_gain_bound[OF t1(2) t2(1) G'] t1 by simp
    ultimately show ?thesis using G' by blast
  qed
  moreover have "this_gains ?t0 = Some (Matrix (length X) dm (\<lambda>_ _. 1))"
    by simp
  ultimately show ?thesis
    using i0 by auto
qed

theorem gains_floor_witness:
  "well_formed [[0]] 50 2 Precomputed \<and>
   (\<exists>t0 G. init (TSNE [[0]] 50 10 2 Precomputed real) = Inr t0 \<and> this_gains t0 = Some G \<and>
      entry G 0 1 = 1 \<and>
      (\<exists>t' G'. steps next 25 t0 = Inr t' \<and> this_gains t' = Some G' \<and>
         1 / 100 \<le> entry G' 0 1 \<and> entry G' 0 1 = 1 / 100))"
proof -
  let ?c = "TSNE [[0]] 50 10 2 Precomputed real :: tsne"
  let ?t0 = "init_from [[0]] ?c"
  have wf: "well_formed [[0]] 50 2 Precomputed"
    by (simp add: well_formed_def shaped_def)
  have i0: "init ?c = Inr ?t0"
    by (rule init_precomputed) (simp add: has_storage_def)
  from gains_floor[OF wf, of 10 real 25] obtain G t' G' where
    a: "this_gains ?t0 = Some G" "\<forall>i<length [[0::real]]. \<forall>d<2. entry G i d = 1"
      "steps next 25 ?t0 = Inr t'" "this_gains t' = Some G'"
      "\<forall>i<length [[0::real]]. \<forall>d<2. 1 / 100 \<le> entry G' i d"
    unfolding i0 by auto
  have r: "ready ?t0" by (rule ready_init) simp
  from single_point_run[OF r, of 1 25] a(3,4)
  have "G' = Matrix 1 2 (\<lambda>_ _. ((\<lambda>x. max (x * 0.8) 0.01) ^^ 25) 1)"
    by simp
  then have e: "entry G' 0 1 = 1 / 100"
    by (simp add: eval_nat_numeral)
  have "entry G 0 1 = 1" "1 / 100 \<le> entry G' 0 1"
    using a(2,5) by simp_all
  with wf i0 a(1,3,4) e show ?thesis
    by blast
qed

end
